theory Spec2Isabelle
  imports Main "HOL-Library.Code_Target_Nat"
begin

section \<open>Values of the Go runtime and standard library used by byline.go\<close>

text \<open>
  A Go \<^verbatim>\<open>byte\<close> is an 8-bit value, as \<^typ>\<open>char\<close> is; \<^verbatim>\<open>[]byte\<close> and \<^verbatim>\<open>string\<close> are both
  byte sequences and the conversions \<^verbatim>\<open>string(line)\<close> and \<^verbatim>\<open>[]byte(s)\<close> keep the bytes, so
  both are \<^typ>\<open>string\<close> here.  Go errors are compared by identity against the two
  sentinels \<^verbatim>\<open>ErrOmitLine\<close> (byline.go, line 15) and \<^verbatim>\<open>io.EOF\<close>; \<open>ErrTooLong\<close> and
  \<open>ErrNoProgress\<close> are the sentinels \<^verbatim>\<open>bufio.ErrTooLong\<close> and \<^verbatim>\<open>io.ErrNoProgress\<close> that
  \<^verbatim>\<open>bufio.Scanner\<close> sets, and every other error value is \<open>Other\<close> with its message.  A nil
  error is \<open>None\<close>.
\<close>

datatype error = ErrOmitLine | EOF | ErrTooLong | ErrNoProgress | Other string

text \<open>
  \<^verbatim>\<open>string(lr.awkVars.RS)\<close> converts the integer type \<^verbatim>\<open>byte\<close> to a string: Go yields the
  UTF-8 encoding of the code point with that number, one byte below 0x80 and two bytes
  from 0x80 on.
\<close>

definition string_of_byte :: "char \<Rightarrow> string" where
  "string_of_byte b =
     (let n = (of_char b :: nat)
      in if n < 128 then [b] else [char_of (192 + n div 64), char_of (128 + n mod 64)])"

text \<open>\<^verbatim>\<open>strings.HasSuffix\<close> and \<^verbatim>\<open>strings.TrimSuffix\<close>.\<close>

definition HasSuffix :: "string \<Rightarrow> string \<Rightarrow> bool" where
  "HasSuffix s suffix =
     (length s \<ge> length suffix \<and> drop (length s - length suffix) s = suffix)"

definition TrimSuffix :: "string \<Rightarrow> string \<Rightarrow> string" where
  "TrimSuffix s suffix =
     (if HasSuffix s suffix then take (length s - length suffix) s else s)"

text \<open>\<^verbatim>\<open>bytes.IndexByte\<close>: the index of the first occurrence of \<open>c\<close>, or -1.\<close>

definition IndexByte :: "string \<Rightarrow> char \<Rightarrow> int" where
  "IndexByte b c =
     (if c \<in> set b then int (length (takeWhile (\<lambda>x. x \<noteq> c) b)) else - 1)"

text \<open>\<^verbatim>\<open>copy(dst, src)\<close> overwrites the first \<open>min (len dst) (len src)\<close> bytes of \<open>dst\<close>
  and returns that number.\<close>

definition copy_n :: "string \<Rightarrow> string \<Rightarrow> nat" where
  "copy_n dst src = min (length dst) (length src)"

definition copy :: "string \<Rightarrow> string \<Rightarrow> string" where
  "copy dst src = take (copy_n dst src) src @ drop (copy_n dst src) dst"

subsection \<open>Regular expressions\<close>

text \<open>
  A compiled \<^verbatim>\<open>*regexp.Regexp\<close> is taken as a parameter: its source text \<open>expr\<close> and the
  function \<^verbatim>\<open>FindAllStringIndex(s, -1)\<close>, the successive leftmost matches of the pattern
  in \<open>s\<close> as (start, end) offsets.  \<^verbatim>\<open>Match\<close> reports whether there is a match at all.
  \<open>Split\<close> is \<^verbatim>\<open>Regexp.Split\<close> of the standard library, statement by statement; the
  offsets of successive matches increase, so its slices \<^verbatim>\<open>s[beg:end]\<close> are in range.
\<close>

record Regexp =
  expr :: string
  FindAllStringIndex :: "string \<Rightarrow> (nat \<times> nat) list"

definition Match :: "Regexp \<Rightarrow> string \<Rightarrow> bool" where
  "Match re b = (FindAllStringIndex re b \<noteq> [])"

text \<open>The loop of \<^verbatim>\<open>Split\<close> over the matches; the state is (beg, end, strings), with
  \<open>en\<close> for the variable \<^verbatim>\<open>end\<close>.\<close>

fun Split_loop :: "string \<Rightarrow> int \<Rightarrow> (nat \<times> nat) list \<Rightarrow> nat \<times> nat \<times> string list
    \<Rightarrow> nat \<times> nat \<times> string list" where
  "Split_loop s n [] st = st"
| "Split_loop s n (m # ms) (beg, en, strings) =
     (if n > 0 \<and> int (length strings) = n - 1 then (beg, en, strings)
      else Split_loop s n ms
             (snd m, fst m,
              if snd m \<noteq> 0 then strings @ [take (fst m - beg) (drop beg s)] else strings))"

definition Split :: "Regexp \<Rightarrow> string \<Rightarrow> int \<Rightarrow> string list" where
  "Split re s n =
     (if n = 0 then []
      else if length (expr re) > 0 \<and> length s = 0 then [[]]
      else
        (let matches = (if n > 0 then take (nat n) (FindAllStringIndex re s)
                        else FindAllStringIndex re s)
         in case Split_loop s n matches (0, 0, []) of
              (beg, en, strings) \<Rightarrow>
                if en \<noteq> length s then strings @ [drop beg s] else strings))"

text \<open>
  The default field separator \<^verbatim>\<open>regexp.MustCompile(`\s+`)\<close> (byline.go, line 18): \<^verbatim>\<open>\s\<close> is
  the class of tab, newline, form feed, carriage return and space, and \<^verbatim>\<open>+\<close> is greedy,
  so the matches are the maximal runs of such bytes.
\<close>

definition is_space :: "char \<Rightarrow> bool" where
  "is_space c = (c = CHR 0x09 \<or> c = CHR 0x0A \<or> c = CHR 0x0C \<or> c = CHR 0x0D \<or> c = CHR 0x20)"

fun space_runs :: "nat \<Rightarrow> string \<Rightarrow> (nat \<times> nat) list" where
  "space_runs i [] = []"
| "space_runs i (c # cs) =
     (if is_space c
      then (let n = length (takeWhile is_space cs)
            in (i, i + 1 + n) # space_runs (i + 1 + n) (drop n cs))
      else space_runs (i + 1) cs)"

definition defaultFS :: Regexp where
  "defaultFS = \<lparr>expr = [CHR 0x5C, CHR ''s'', CHR ''+''], FindAllStringIndex = space_runs 0\<rparr>"

definition defaultRS :: char where
  "defaultRS = CHR 0x0A"

definition nullBytes :: string where
  "nullBytes = []"

section \<open>The Reader (byline.go)\<close>

text \<open>
  \<^verbatim>\<open>AWKVars\<close> (lines 33-38).  \<open>NR\<close> and \<open>NF\<close> are Go \<^verbatim>\<open>int\<close>s (64 bit); they count
  records and fields, which stay far below \<open>2^63\<close>, and are unbounded integers here.
\<close>

record AWKVars =
  NR :: int
  NF :: int
  RS :: char
  FS :: Regexp

text \<open>
  The underlying \<^verbatim>\<open>io.Reader\<close>: the chunks of bytes its successive \<^verbatim>\<open>Read\<close> calls have
  to deliver, and the error it returns once they are used up (\<open>EOF\<close> for a source that
  just ends).  \<open>Source_Read n src\<close> is a call of its \<^verbatim>\<open>Read\<close> with a buffer of \<open>n\<close> bytes:
  the next chunk, or as much of it as the buffer takes, the rest staying for the next
  call.  An empty chunk is a call that returns no data and no error.
\<close>

record Source =
  chunks :: "string list"
  final :: error

definition Source_Read :: "nat \<Rightarrow> Source \<Rightarrow> (string \<times> error option) \<times> Source" where
  "Source_Read n src =
     (case chunks src of
        [] \<Rightarrow> (([], Some (final src)), src)
      | c # cs \<Rightarrow>
          ((take n c, None), src\<lparr>chunks := (if drop n c = [] then cs else drop n c # cs)\<rparr>))"

text \<open>
  \<^verbatim>\<open>bufio.Scanner\<close> (bufio/scan.go of the Go standard library).  \<open>buf\<close> is the unconsumed
  part \<^verbatim>\<open>s.buf[s.start:s.end]\<close> of its buffer, \<open>start\<close> is \<^verbatim>\<open>s.start\<close>, the number of buffer
  bytes before it, and \<open>spare\<close> is \<^verbatim>\<open>len(s.buf) - s.end\<close>, the room behind it, so that
  \<open>len_buf\<close> is \<^verbatim>\<open>len(s.buf)\<close>.  \<open>err\<close> is the sticky error \<^verbatim>\<open>s.err\<close>, set when the source has
  returned an error (\<open>EOF\<close> included) or the scanner has given up, and \<open>maxTokenSize\<close> the
  limit on the size of the buffer.  \<^verbatim>\<open>NewScanner\<close> starts without a buffer and with the
  limit \<^verbatim>\<open>MaxScanTokenSize\<close>; byline.go never calls \<^verbatim>\<open>Scanner.Buffer\<close>.
\<close>

record Scanner =
  r :: Source
  buf :: string
  err :: "error option"
  start :: nat
  spare :: nat
  maxTokenSize :: nat

definition len_buf :: "Scanner \<Rightarrow> nat" where
  "len_buf s = start s + length (buf s) + spare s"

definition MaxScanTokenSize :: nat where
  "MaxScanTokenSize = 64 * 1024"

definition startBufSize :: nat where
  "startBufSize = 4096"

definition maxConsecutiveEmptyReads :: nat where
  "maxConsecutiveEmptyReads = 100"

definition maxInt :: nat where
  "maxInt = 2 ^ 63 - 1"

text \<open>
  Variables that the filter closures capture besides the Reader itself: the \<^verbatim>\<open>result\<close>
  slices that \<^verbatim>\<open>ReadAllSlice\<close> and \<^verbatim>\<open>ReadAllSliceString\<close> allocate (\<open>results i\<close> is the
  slice of the \<open>i\<close>-th call, \<open>allocated\<close> the number of calls so far) and the state \<open>'s\<close>
  of the caller's own callbacks.
\<close>

record 's Captured =
  results :: "nat \<Rightarrow> string list"
  allocated :: nat
  user :: 's

text \<open>
  A filter function \<^verbatim>\<open>func(line []byte) ([]byte, error)\<close> is a closure: it runs in the
  environment of the Reader's \<^verbatim>\<open>awkVars\<close> (the closure of \<^verbatim>\<open>AWKMode\<close> writes \<open>NF\<close>) and of
  the captured variables, and returns the environment it leaves.  A callback does not
  call back into \<^verbatim>\<open>Read\<close> or the builder methods of the Reader it is installed in.
\<close>

type_synonym 's env = "AWKVars \<times> 's Captured"

type_synonym 's filterFunc = "'s env \<Rightarrow> string \<Rightarrow> (string \<times> error option) \<times> 's env"

record 's Reader =
  scanner :: Scanner
  filterFuncs :: "'s filterFunc list"
  awkVars :: AWKVars
  captured :: "'s Captured"

definition NewScanner :: "Source \<Rightarrow> Scanner" where
  "NewScanner reader =
     \<lparr>r = reader, buf = [], err = None, start = 0, spare = 0,
      maxTokenSize = MaxScanTokenSize\<rparr>"

text \<open>\<^verbatim>\<open>NewReader\<close> (lines 41-52); \<open>u\<close> is the initial state of the caller's callbacks.\<close>

definition NewReader :: "Source \<Rightarrow> 's \<Rightarrow> 's Reader" where
  "NewReader reader u =
     \<lparr>scanner = NewScanner reader,
      filterFuncs = [],
      awkVars = \<lparr>NR = 0, NF = 0, RS = defaultRS, FS = defaultFS\<rparr>,
      captured = \<lparr>results = (\<lambda>i. []), allocated = 0, user = u\<rparr>\<rparr>"

text \<open>
  \<^verbatim>\<open>scanLinesWithNL\<close> (lines 54-69) with \<open>rs\<close> for \<^verbatim>\<open>lr.awkVars.RS\<close>.  It returns
  (advance, token); a nil token is \<open>None\<close>; its error is always nil.
\<close>

definition scanLinesWithNL :: "char \<Rightarrow> string \<Rightarrow> bool \<Rightarrow> int \<times> string option" where
  "scanLinesWithNL rs data atEOF =
     (if atEOF \<and> length data = 0 then (0, None)
      else (let i = IndexByte data rs
            in if i \<ge> 0 then (i + 1, Some (take (nat (i + 1)) data))
               else if atEOF then (int (length data), Some data)
               else (0, None)))"

text \<open>
  The parts of \<^verbatim>\<open>Scanner.Scan\<close>.  \<open>Scanner_advance\<close> is \<^verbatim>\<open>s.advance(n)\<close> for an \<open>n\<close> within the
  data, as \<^verbatim>\<open>scanLinesWithNL\<close> returns it, and \<open>setErr\<close> is \<^verbatim>\<open>s.setErr\<close>.  \<open>shift\<close> moves the
  data to the beginning of the buffer when there is no room behind it or more than
  half of the buffer is before it.  \<open>resize\<close> replaces a full buffer by one of twice the
  size (\<^verbatim>\<open>startBufSize\<close> for the first), at most \<open>maxTokenSize\<close>.  \<open>read_loop\<close> is the loop
  that calls the source's \<^verbatim>\<open>Read\<close> with the room behind the data until it returns data or
  an error, and gives up with \<^verbatim>\<open>io.ErrNoProgress\<close> at the 101st call in a row that
  returns neither; \<open>fill\<close> puts what it read behind the data and records the error.  The
  source of this model never returns more bytes than the room it is given
  (\<^verbatim>\<open>ErrBadReadCount\<close>).
\<close>

definition Scanner_advance :: "nat \<Rightarrow> Scanner \<Rightarrow> Scanner" where
  "Scanner_advance n s = s\<lparr>buf := drop n (buf s), start := start s + n\<rparr>"

definition setErr :: "error \<Rightarrow> Scanner \<Rightarrow> Scanner" where
  "setErr e s = (if err s = None \<or> err s = Some EOF then s\<lparr>err := Some e\<rparr> else s)"

definition shift :: "Scanner \<Rightarrow> Scanner" where
  "shift s =
     (if start s > 0 \<and> (spare s = 0 \<or> start s > len_buf s div 2)
      then s\<lparr>start := 0, spare := spare s + start s\<rparr>
      else s)"

definition resize :: "Scanner \<Rightarrow> Scanner" where
  "resize s =
     (let newSize = (if len_buf s * 2 = 0 then startBufSize else len_buf s * 2);
          newSize = (if newSize > maxTokenSize s then maxTokenSize s else newSize)
      in s\<lparr>start := 0, spare := newSize - length (buf s)\<rparr>)"

function read_loop :: "nat \<Rightarrow> nat \<Rightarrow> Source \<Rightarrow> (string \<times> error option) \<times> Source" where
  "read_loop loop n src =
     (case Source_Read n src of
        ((data, e), src') \<Rightarrow>
          (if e \<noteq> None then ((data, e), src')
           else if length data > 0 then ((data, None), src')
           else if loop + 1 > maxConsecutiveEmptyReads then ((data, Some ErrNoProgress), src')
           else read_loop (loop + 1) n src'))"
  by pat_completeness auto
termination
  by (relation "measure (\<lambda>(loop, n, src). Suc maxConsecutiveEmptyReads - loop)") auto

declare read_loop.simps [simp del]

definition fill :: "Scanner \<Rightarrow> Scanner" where
  "fill s =
     (case read_loop 0 (spare s) (r s) of
        ((data, e), src) \<Rightarrow>
          (let s' = s\<lparr>r := src, buf := buf s @ data, spare := spare s - length data\<rparr>
           in case e of None \<Rightarrow> s' | Some er \<Rightarrow> setErr er s'))"

text \<open>
  \<^verbatim>\<open>Scanner.Scan\<close> followed by \<^verbatim>\<open>Scanner.Bytes\<close>, with \<^verbatim>\<open>scanLinesWithNL\<close> as split
  function: \<open>Some token\<close> when \<^verbatim>\<open>Scan\<close> returns true.  The split function is called when
  the buffer holds data or the scanner has an error; without a token the scanner stops
  if it has an error, gives up with \<^verbatim>\<open>ErrTooLong\<close> if the data fills a buffer that has
  reached \<open>maxTokenSize\<close>, and otherwise makes room, reads and tries again.  The loop
  ends because every round either reads data from the source or sets the error.
  \<^verbatim>\<open>scanLinesWithNL\<close> returns no error and no token without advancing, so the branches of
  \<^verbatim>\<open>Scan\<close> for a split error, for \<^verbatim>\<open>ErrFinalToken\<close> and for tokens that do not advance
  (\<^verbatim>\<open>s.empties\<close>) are never taken and are left out.
\<close>

lemma read_loop_progress:
  "0 < n \<Longrightarrow> read_loop loop n src = ((data, None), src') \<Longrightarrow>
   length (concat (chunks src')) < length (concat (chunks src))"
proof (induction loop n src rule: read_loop.induct)
  case (1 loop n src)
  show ?case
  proof (cases "chunks src")
    case Nil
    with 1(3) show ?thesis
      by (subst (asm) read_loop.simps) (simp add: Source_Read_def)
  next
    case (Cons c cs)
    show ?thesis
    proof (cases "c = []")
      case True
      let ?src1 = "src\<lparr>chunks := cs\<rparr>"
      have sr: "Source_Read n src = (([], None), ?src1)"
        using Cons True by (simp add: Source_Read_def)
      show ?thesis
      proof (cases "loop + 1 > maxConsecutiveEmptyReads")
        case True
        with sr 1(3) show ?thesis by (subst (asm) read_loop.simps) simp
      next
        case False
        with sr 1(3) have "read_loop (loop + 1) n ?src1 = ((data, None), src')"
          by (subst (asm) read_loop.simps) simp
        with 1(1)[of "([], None)" ?src1 "[]" None] sr False 1(2) Cons
        show ?thesis by simp
      qed
    next
      case False
      with 1(2) have ne: "take n c \<noteq> []" by (cases c) auto
      have "length (drop n c) < length c" using False 1(2) by simp
      moreover have "src' = src\<lparr>chunks := (if drop n c = [] then cs else drop n c # cs)\<rparr>"
        using 1(3) Cons ne by (subst (asm) read_loop.simps) (simp add: Source_Read_def)
      ultimately show ?thesis using Cons False 1(2) by auto
    qed
  qed
qed

lemma fill_progress:
  assumes "err s = None" and "0 < spare s"
  shows "err (fill s) \<noteq> None \<or>
         length (concat (chunks (r (fill s)))) < length (concat (chunks (r s)))"
proof -
  obtain data e src where rl: "read_loop 0 (spare s) (r s) = ((data, e), src)"
    by (cases "read_loop 0 (spare s) (r s)") auto
  show ?thesis
  proof (cases e)
    case None
    with rl read_loop_progress[OF assms(2), of 0 "r s" data src] assms(1)
    show ?thesis by (simp add: fill_def)
  next
    case (Some er)
    with rl assms(1) show ?thesis by (simp add: fill_def setErr_def)
  qed
qed

lemma resize_spare:
  "spare s = 0 \<Longrightarrow> len_buf s < maxTokenSize s \<Longrightarrow> 0 < spare (resize s)"
  by (auto simp: resize_def len_buf_def startBufSize_def Let_def)

lemma err_shift [simp]: "err (shift s) = err s"
  by (simp add: shift_def)

lemma r_shift [simp]: "r (shift s) = r s"
  by (simp add: shift_def)

lemma err_resize [simp]: "err (resize s) = err s"
  by (simp add: resize_def Let_def)

lemma r_resize [simp]: "r (resize s) = r s"
  by (simp add: resize_def Let_def)

lemma err_advance [simp]: "err (Scanner_advance n s) = err s"
  by (simp add: Scanner_advance_def)

lemma r_advance [simp]: "r (Scanner_advance n s) = r s"
  by (simp add: Scanner_advance_def)

function Scan :: "char \<Rightarrow> Scanner \<Rightarrow> string option \<times> Scanner" where
  "Scan rs s =
     (case (if buf s \<noteq> [] \<or> err s \<noteq> None
            then scanLinesWithNL rs (buf s) (err s \<noteq> None) else (0, None)) of
        (advance, Some token) \<Rightarrow> (Some token, Scanner_advance (nat advance) s)
      | (advance, None) \<Rightarrow>
          (let s1 = Scanner_advance (nat advance) s
           in if err s1 \<noteq> None then (None, s1\<lparr>buf := [], start := 0, spare := len_buf s1\<rparr>)
              else (let s2 = shift s1
                    in if spare s2 = 0 \<and>
                          (len_buf s2 \<ge> maxTokenSize s2 \<or> len_buf s2 > maxInt div 2)
                       then (None, setErr ErrTooLong s2)
                       else Scan rs (fill (if spare s2 = 0 then resize s2 else s2)))))"
  by pat_completeness auto
termination
proof (relation "measure (\<lambda>(rs, s). if err s = None then Suc (length (concat (chunks (r s)))) else 0)")
  show "wf (measure (\<lambda>(rs, s). if err s = None then Suc (length (concat (chunks (r s)))) else 0))"
    by simp
next
  fix rs :: char and s :: Scanner and x :: "int \<times> string option" and advance :: int
    and y :: "string option" and s1 s2 :: Scanner
  assume s1: "s1 = Scanner_advance (nat advance) s" and e: "\<not> err s1 \<noteq> None"
    and s2: "s2 = shift s1"
    and c: "\<not> (spare s2 = 0 \<and> (maxTokenSize s2 \<le> len_buf s2 \<or> maxInt div 2 < len_buf s2))"
  let ?s3 = "if spare s2 = 0 then resize s2 else s2"
  have e3: "err ?s3 = None" using e s2 by simp
  have sp: "0 < spare ?s3" using c by (auto intro: resize_spare)
  have r3: "r ?s3 = r s" using s1 s2 by simp
  have es: "err s = None" using e s1 by simp
  from fill_progress[OF e3 sp] r3 es
  show "((rs, fill ?s3), (rs, s))
        \<in> measure (\<lambda>(rs, s). if err s = None then Suc (length (concat (chunks (r s)))) else 0)"
    by auto
qed

declare Scan.simps [simp del]

text \<open>\<^verbatim>\<open>Scanner.Err\<close>: the sticky error, with \<open>EOF\<close> reported as nil.\<close>

definition Err :: "Scanner \<Rightarrow> error option" where
  "Err s = (if err s = Some EOF then None else err s)"

text \<open>
  The loop over \<^verbatim>\<open>lr.filterFuncs\<close> in \<^verbatim>\<open>Read\<close> (lines 81-93): the result is
  (lineBytes, bufErr) and the environment the filters leave.
\<close>

fun filter_loop :: "'s filterFunc list \<Rightarrow> string \<Rightarrow> 's env
    \<Rightarrow> (string \<times> error option) \<times> 's env" where
  "filter_loop [] lineBytes env = ((lineBytes, None), env)"
| "filter_loop (filterFunc # rest) lineBytes env =
     (case filterFunc env lineBytes of
        ((lineBytes', filterErr), env') \<Rightarrow>
          (case filterErr of
             None \<Rightarrow> filter_loop rest lineBytes' env'
           | Some e \<Rightarrow>
               if e = ErrOmitLine then ((nullBytes, None), env')
               else ((lineBytes', Some e), env')))"

text \<open>
  \<^verbatim>\<open>Read\<close> (lines 72-104).  \<open>p\<close> is the caller's buffer; the result is the buffer after
  \<^verbatim>\<open>copy(p, lineBytes)\<close>, the returned \<open>n\<close> and \<open>err\<close>, and the Reader afterwards.
\<close>

definition Read :: "string \<Rightarrow> 's Reader \<Rightarrow> (string \<times> int \<times> error option) \<times> 's Reader" where
  "Read p lr =
     (case Scan (RS (awkVars lr)) (scanner lr) of
        (Some token, sc) \<Rightarrow>
          (case filter_loop (filterFuncs lr) token
                  ((awkVars lr)\<lparr>NR := NR (awkVars lr) + 1\<rparr>, captured lr) of
             ((lineBytes, bufErr), (vars, cap)) \<Rightarrow>
               ((copy p lineBytes, int (length lineBytes), bufErr),
                lr\<lparr>scanner := sc, awkVars := vars, captured := cap\<rparr>))
      | (None, sc) \<Rightarrow>
          ((copy p nullBytes, int (length nullBytes),
            (if Err sc = None then Some EOF else Err sc)),
           lr\<lparr>scanner := sc\<rparr>))"

subsection \<open>Builder methods\<close>

text \<open>
  Each builder wraps its argument in a function literal and appends it with \<^verbatim>\<open>MapErr\<close>;
  the literal of builder \<open>B\<close> is \<open>B_closure\<close>.  \<^verbatim>\<open>MapErr\<close> is lines 114-117.
\<close>

definition MapErr :: "'s filterFunc \<Rightarrow> 's Reader \<Rightarrow> 's Reader" where
  "MapErr filterFn lr = lr\<lparr>filterFuncs := filterFuncs lr @ [filterFn]\<rparr>"

text \<open>\<^verbatim>\<open>Map\<close> (lines 107-111) and \<^verbatim>\<open>MapString\<close> (lines 120-124).\<close>

definition Map_closure :: "('s env \<Rightarrow> string \<Rightarrow> string \<times> 's env) \<Rightarrow> 's filterFunc" where
  "Map_closure filterFn env line =
     (case filterFn env line of (out, env') \<Rightarrow> ((out, None), env'))"

definition Map :: "('s env \<Rightarrow> string \<Rightarrow> string \<times> 's env) \<Rightarrow> 's Reader \<Rightarrow> 's Reader" where
  "Map filterFn lr = MapErr (Map_closure filterFn) lr"

definition MapString_closure :: "('s env \<Rightarrow> string \<Rightarrow> string \<times> 's env) \<Rightarrow> 's filterFunc" where
  "MapString_closure filterFn env line =
     (case filterFn env line of (out, env') \<Rightarrow> ((out, None), env'))"

definition MapString :: "('s env \<Rightarrow> string \<Rightarrow> string \<times> 's env) \<Rightarrow> 's Reader \<Rightarrow> 's Reader" where
  "MapString filterFn lr = MapErr (MapString_closure filterFn) lr"

text \<open>\<^verbatim>\<open>MapStringErr\<close> (lines 127-132).\<close>

definition MapStringErr_closure :: "'s filterFunc \<Rightarrow> 's filterFunc" where
  "MapStringErr_closure filterFn env line =
     (case filterFn env line of ((newString, e), env') \<Rightarrow> ((newString, e), env'))"

definition MapStringErr :: "'s filterFunc \<Rightarrow> 's Reader \<Rightarrow> 's Reader" where
  "MapStringErr filterFn lr = MapErr (MapStringErr_closure filterFn) lr"

text \<open>\<^verbatim>\<open>Grep\<close> (lines 135-143), \<^verbatim>\<open>GrepString\<close> (146-150), \<^verbatim>\<open>GrepByRegexp\<close> (153-157).\<close>

definition Grep_closure :: "('s env \<Rightarrow> string \<Rightarrow> bool \<times> 's env) \<Rightarrow> 's filterFunc" where
  "Grep_closure filterFn env line =
     (case filterFn env line of
        (keep, env') \<Rightarrow>
          if keep then ((line, None), env')
          else ((nullBytes, Some ErrOmitLine), env'))"

definition Grep :: "('s env \<Rightarrow> string \<Rightarrow> bool \<times> 's env) \<Rightarrow> 's Reader \<Rightarrow> 's Reader" where
  "Grep filterFn lr = MapErr (Grep_closure filterFn) lr"

definition GrepString_closure ::
    "('s env \<Rightarrow> string \<Rightarrow> bool \<times> 's env) \<Rightarrow> 's env \<Rightarrow> string \<Rightarrow> bool \<times> 's env" where
  "GrepString_closure filterFn env line = filterFn env line"

definition GrepString :: "('s env \<Rightarrow> string \<Rightarrow> bool \<times> 's env) \<Rightarrow> 's Reader \<Rightarrow> 's Reader" where
  "GrepString filterFn lr = Grep (GrepString_closure filterFn) lr"

definition GrepByRegexp_closure :: "Regexp \<Rightarrow> 's env \<Rightarrow> string \<Rightarrow> bool \<times> 's env" where
  "GrepByRegexp_closure re env line = (Match re line, env)"

definition GrepByRegexp :: "Regexp \<Rightarrow> 's Reader \<Rightarrow> 's Reader" where
  "GrepByRegexp re lr = Grep (GrepByRegexp_closure re) lr"

text \<open>\<^verbatim>\<open>SetRS\<close> (lines 160-163) and \<^verbatim>\<open>SetFS\<close> (lines 166-169).\<close>

definition SetRS :: "char \<Rightarrow> 's Reader \<Rightarrow> 's Reader" where
  "SetRS rs lr = lr\<lparr>awkVars := (awkVars lr)\<lparr>RS := rs\<rparr>\<rparr>"

definition SetFS :: "Regexp \<Rightarrow> 's Reader \<Rightarrow> 's Reader" where
  "SetFS fs lr = lr\<lparr>awkVars := (awkVars lr)\<lparr>FS := fs\<rparr>\<rparr>"

text \<open>
  The function literal of \<^verbatim>\<open>AWKMode\<close> (lines 172-192).  The callback gets the stripped
  line, the fields and a copy of \<^verbatim>\<open>lr.awkVars\<close>.  \<open>AWKMode_result\<close> is lines 183-190, what
  the literal returns from the callback's result; it reads \<^verbatim>\<open>lr.awkVars.RS\<close> again, after
  the callback has run.
\<close>

type_synonym 's awkFn =
  "'s env \<Rightarrow> string \<Rightarrow> string list \<Rightarrow> AWKVars \<Rightarrow> (string \<times> error option) \<times> 's env"

definition AWKMode_result :: "bool \<Rightarrow> (string \<times> error option) \<times> 's env
    \<Rightarrow> (string \<times> error option) \<times> 's env" where
  "AWKMode_result addRS res =
     (case res of
        ((result, e), (vars, cap)) \<Rightarrow>
          (if e \<noteq> None then (([], e), (vars, cap))
           else if \<not> HasSuffix result (string_of_byte (RS vars)) \<and> addRS
                then ((result @ string_of_byte (RS vars), None), (vars, cap))
                else ((result, None), (vars, cap))))"

definition AWKMode_closure :: "'s awkFn \<Rightarrow> 's filterFunc" where
  "AWKMode_closure filterFn env line0 =
     (case env of
        (vars, cap) \<Rightarrow>
          (let addRS = HasSuffix line0 (string_of_byte (RS vars));
               line = (if addRS then TrimSuffix line0 (string_of_byte (RS vars)) else line0);
               fields = Split (FS vars) line (- 1);
               vars1 = vars\<lparr>NF := int (length fields)\<rparr>
           in AWKMode_result addRS (filterFn (vars1, cap) line fields vars1)))"

definition AWKMode :: "'s awkFn \<Rightarrow> 's Reader \<Rightarrow> 's Reader" where
  "AWKMode filterFn lr = MapStringErr (AWKMode_closure filterFn) lr"

section \<open>The scanner as a function of the input that is left\<close>

text \<open>
  \<open>delivered loop cs\<close> are the bytes a source with the chunks \<open>cs\<close> delivers to the
  scanner, whose read loop has seen \<open>loop\<close> empty reads in a row: all of them, unless the
  source returns no data 101 times in a row; then the scanner gives up there.
  \<open>full s\<close> is the input the scanner has not turned into tokens yet: its buffer and,
  while it has no error, what the source delivers.  \<open>first_record rs xs\<close> is the first
  record of \<open>xs\<close>: up to and including the first separator, or all of \<open>xs\<close> without one.
  \<open>fits_in m rs t\<close> says that the scanner finds the record \<open>t\<close> with a buffer of at most
  \<open>m\<close> bytes: a record with its separator has to fit the buffer, and the end of a record
  without one is only seen when the buffer has room for a further read.
\<close>

fun delivered :: "nat \<Rightarrow> string list \<Rightarrow> string" where
  "delivered loop [] = []"
| "delivered loop (c # cs) =
     (if c = [] then (if loop + 1 > maxConsecutiveEmptyReads then [] else delivered (loop + 1) cs)
      else c @ delivered 0 cs)"

definition full :: "Scanner \<Rightarrow> string" where
  "full s = buf s @ (if err s = None then delivered 0 (chunks (r s)) else [])"

definition first_record :: "char \<Rightarrow> string \<Rightarrow> string" where
  "first_record rs xs = (if rs \<in> set xs then takeWhile (\<lambda>x. x \<noteq> rs) xs @ [rs] else xs)"

definition fits_in :: "nat \<Rightarrow> char \<Rightarrow> string \<Rightarrow> bool" where
  "fits_in m rs t = (if rs \<in> set t then length t \<le> m else length t < m)"

definition buffer_ok :: "Scanner \<Rightarrow> bool" where
  "buffer_ok s = (len_buf s \<le> maxTokenSize s \<and> maxTokenSize s \<le> maxInt div 2)"

lemma take_upto_sep:
  "rs \<in> set d \<Longrightarrow> take (Suc (length (takeWhile (\<lambda>x. x \<noteq> rs) d))) d = takeWhile (\<lambda>x. x \<noteq> rs) d @ [rs]"
  by (induction d) auto

lemma split_no_sep: "rs \<notin> set d \<Longrightarrow> scanLinesWithNL rs d e = (if e \<and> d \<noteq> [] then (int (length d), Some d) else (0, None))"
  by (auto simp: scanLinesWithNL_def IndexByte_def)

lemma split_sep: "rs \<in> set d \<Longrightarrow> scanLinesWithNL rs d e = (int (length (takeWhile (\<lambda>x. x \<noteq> rs) d)) + 1, Some (first_record rs d))"
proof -
  assume a: "rs \<in> set d"
  then have "d \<noteq> []" by auto
  moreover have "nat (int (length (takeWhile (\<lambda>x. x \<noteq> rs) d)) + 1) = Suc (length (takeWhile (\<lambda>x. x \<noteq> rs) d))" by simp
  ultimately show ?thesis using a
    by (simp add: scanLinesWithNL_def IndexByte_def Let_def take_upto_sep first_record_def)
qed

lemma first_record_append:
  "rs \<in> set d \<Longrightarrow> first_record rs (d @ e) = first_record rs d"
  by (auto simp: first_record_def takeWhile_append1)

lemma first_record_length: "rs \<in> set d \<Longrightarrow> length (first_record rs d) = Suc (length (takeWhile (\<lambda>x. x \<noteq> rs) d))"
  by (simp add: first_record_def)

lemma takeWhile_sep_less: "rs \<in> set d \<Longrightarrow> length (takeWhile (\<lambda>x. x \<noteq> rs) d) < length d"
  by (induction d) auto

lemma first_record_le: "length (first_record rs d) \<le> length d"
  using takeWhile_sep_less[of rs d] by (auto simp: first_record_def)

lemma first_record_prefix: "take (length (first_record rs d)) d = first_record rs d"
  by (auto simp: first_record_def take_upto_sep)

lemma first_record_nonempty: "d \<noteq> [] \<Longrightarrow> first_record rs d \<noteq> []"
  by (simp add: first_record_def)

lemma first_record_no_sep: "rs \<notin> set d \<Longrightarrow> first_record rs d = d"
  by (simp add: first_record_def)

lemma first_record_has_sep: "rs \<in> set d \<Longrightarrow> rs \<in> set (first_record rs d)"
  by (simp add: first_record_def)

lemma first_record_beyond:
  "rs \<notin> set b \<Longrightarrow> length b \<le> length (first_record rs (b @ d)) \<and>
     (rs \<in> set (first_record rs (b @ d)) \<longrightarrow> length b < length (first_record rs (b @ d)))"
proof -
  assume "rs \<notin> set b"
  then have "takeWhile (\<lambda>x. x \<noteq> rs) (b @ d) = b @ takeWhile (\<lambda>x. x \<noteq> rs) d"
    by (induction b) auto
  then show ?thesis by (simp add: first_record_def)
qed

lemma not_fits_beyond:
  assumes "rs \<notin> set b" and "m \<le> length b"
  shows "\<not> fits_in m rs (first_record rs (b @ d))"
  using first_record_beyond[OF assms(1), of d] assms(2)
  by (auto simp: fits_in_def)

lemma setErr_frame [simp]:
  "len_buf (setErr e s) = len_buf s" "maxTokenSize (setErr e s) = maxTokenSize s"
  "buf (setErr e s) = buf s" "r (setErr e s) = r s"
  by (simp_all add: setErr_def len_buf_def)

text \<open>One call of \<^verbatim>\<open>Scan\<close>, case by case.\<close>

lemma Scanner_advance_0 [simp]: "Scanner_advance 0 s = s"
  by (simp add: Scanner_advance_def)

lemma Scan_sep:
  assumes "rs \<in> set (buf s)"
  shows "Scan rs s = (Some (first_record rs (buf s)),
                      Scanner_advance (length (first_record rs (buf s))) s)"
proof -
  from assms have ne: "buf s \<noteq> []" by auto
  have "nat (int (length (takeWhile (\<lambda>x. x \<noteq> rs) (buf s))) + 1) = length (first_record rs (buf s))"
    using assms by (simp add: first_record_length)
  then show ?thesis
    by (subst Scan.simps) (simp add: ne split_sep[OF assms])
qed

lemma Scan_rest:
  assumes "rs \<notin> set (buf s)" and "err s \<noteq> None" and "buf s \<noteq> []"
  shows "Scan rs s = (Some (buf s), Scanner_advance (length (buf s)) s)"
  by (subst Scan.simps) (simp add: assms split_no_sep[OF assms(1)])

lemma Scan_done:
  assumes "err s \<noteq> None" and "buf s = []"
  shows "Scan rs s = (None, s\<lparr>buf := [], start := 0, spare := len_buf s\<rparr>)"
  by (subst Scan.simps) (simp add: assms scanLinesWithNL_def)

lemma Scan_too_long:
  assumes "rs \<notin> set (buf s)" and "err s = None"
    and "spare (shift s) = 0 \<and>
         (len_buf (shift s) \<ge> maxTokenSize (shift s) \<or> len_buf (shift s) > maxInt div 2)"
  shows "Scan rs s = (None, setErr ErrTooLong (shift s))"
  by (subst Scan.simps) (simp add: assms split_no_sep[OF assms(1)])

lemma Scan_more:
  assumes "rs \<notin> set (buf s)" and "err s = None"
    and "\<not> (spare (shift s) = 0 \<and>
         (len_buf (shift s) \<ge> maxTokenSize (shift s) \<or> len_buf (shift s) > maxInt div 2))"
  shows "Scan rs s = Scan rs (fill (if spare (shift s) = 0 then resize (shift s) else shift s))"
  by (subst Scan.simps) (simp add: assms split_no_sep[OF assms(1)] Let_def)

lemma Scan_cases [consumes 0, case_names sep rest ended too_long more]:
  assumes "rs \<in> set (buf s) \<Longrightarrow> P"
    and "rs \<notin> set (buf s) \<Longrightarrow> err s \<noteq> None \<Longrightarrow> buf s \<noteq> [] \<Longrightarrow> P"
    and "err s \<noteq> None \<Longrightarrow> buf s = [] \<Longrightarrow> P"
    and "rs \<notin> set (buf s) \<Longrightarrow> err s = None \<Longrightarrow>
         spare (shift s) = 0 \<and>
         (len_buf (shift s) \<ge> maxTokenSize (shift s) \<or> len_buf (shift s) > maxInt div 2) \<Longrightarrow> P"
    and "rs \<notin> set (buf s) \<Longrightarrow> err s = None \<Longrightarrow>
         \<not> (spare (shift s) = 0 \<and>
         (len_buf (shift s) \<ge> maxTokenSize (shift s) \<or> len_buf (shift s) > maxInt div 2)) \<Longrightarrow> P"
  shows P
  using assms by blast

text \<open>What the read loop and the steps around it do to the input that is left.\<close>

lemma read_loop_spec:
  "0 < n \<Longrightarrow> read_loop loop n src = ((data, e), src') \<Longrightarrow>
   final src' = final src \<and> length data \<le> n \<and>
   (e = None \<longrightarrow> data \<noteq> [] \<and> delivered loop (chunks src) = data @ delivered 0 (chunks src')) \<and>
   (e \<noteq> None \<longrightarrow> data = [] \<and> delivered loop (chunks src) = [])"
proof (induction loop n src rule: read_loop.induct)
  case (1 loop n src)
  show ?case
  proof (cases "chunks src")
    case Nil
    with 1(3) show ?thesis
      by (subst (asm) read_loop.simps) (auto simp: Source_Read_def)
  next
    case (Cons c cs)
    show ?thesis
    proof (cases "c = []")
      case True
      let ?src1 = "src\<lparr>chunks := cs\<rparr>"
      have sr: "Source_Read n src = (([], None), ?src1)"
        using Cons True by (simp add: Source_Read_def)
      show ?thesis
      proof (cases "loop + 1 > maxConsecutiveEmptyReads")
        case True
        with sr 1(3) have "data = [] \<and> e = Some ErrNoProgress \<and> src' = ?src1"
          by (subst (asm) read_loop.simps) auto
        with Cons \<open>c = []\<close> True show ?thesis by simp
      next
        case False
        with sr 1(3) have "read_loop (loop + 1) n ?src1 = ((data, e), src')"
          by (subst (asm) read_loop.simps) simp
        with 1(1)[of "([], None)" ?src1 "[]" None] sr False 1(2) Cons \<open>c = []\<close>
        show ?thesis by simp
      qed
    next
      case False
      with 1(2) have ne: "take n c \<noteq> []" by (cases c) auto
      have "data = take n c \<and> e = None \<and>
          src' = src\<lparr>chunks := (if drop n c = [] then cs else drop n c # cs)\<rparr>"
        using 1(3) Cons ne by (subst (asm) read_loop.simps) (auto simp: Source_Read_def)
      moreover have "c @ delivered 0 cs =
          take n c @ delivered 0 (if drop n c = [] then cs else drop n c # cs)"
      proof (cases "drop n c = []")
        case True
        then have "take n c = c" by simp
        with True show ?thesis by simp
      next
        case dn: False
        have "take n c @ drop n c @ delivered 0 cs = c @ delivered 0 cs" by simp
        with dn show ?thesis by simp
      qed
      ultimately show ?thesis using Cons False ne by simp
    qed
  qed
qed

lemma fill_spec:
  assumes "err s = None" and "0 < spare s"
  shows "full (fill s) = full s \<and> len_buf (fill s) = len_buf s \<and>
         maxTokenSize (fill s) = maxTokenSize s \<and>
         (err (fill s) \<noteq> None \<longrightarrow> buf (fill s) = buf s \<and> full s = buf s)"
proof -
  obtain data e src where rl: "read_loop 0 (spare s) (r s) = ((data, e), src)"
    by (cases "read_loop 0 (spare s) (r s)") auto
  note sp = read_loop_spec[OF assms(2) rl]
  show ?thesis
  proof (cases e)
    case None
    with rl sp assms(1) show ?thesis
      by (simp add: fill_def full_def len_buf_def)
  next
    case (Some er)
    with rl sp assms(1) show ?thesis
      by (simp add: fill_def full_def len_buf_def setErr_def)
  qed
qed

lemma shift_spec:
  "buf (shift s) = buf s \<and> full (shift s) = full s \<and> len_buf (shift s) = len_buf s \<and>
   maxTokenSize (shift s) = maxTokenSize s \<and>
   (spare (shift s) = 0 \<longrightarrow> len_buf (shift s) = length (buf s))"
  by (auto simp: shift_def full_def len_buf_def)

lemma resize_spec:
  "buf (resize s) = buf s \<and> full (resize s) = full s \<and> maxTokenSize (resize s) = maxTokenSize s \<and>
   (len_buf s < maxTokenSize s \<longrightarrow> len_buf (resize s) \<le> maxTokenSize s)"
  by (auto simp: resize_def full_def len_buf_def Let_def startBufSize_def)

lemma room_spec:
  assumes "err s = None"
    and "\<not> (spare (shift s) = 0 \<and>
         (len_buf (shift s) \<ge> maxTokenSize (shift s) \<or> len_buf (shift s) > maxInt div 2))"
  defines "s3 \<equiv> (if spare (shift s) = 0 then resize (shift s) else shift s)"
  shows "err s3 = None \<and> 0 < spare s3 \<and> r s3 = r s \<and> buf s3 = buf s \<and> full s3 = full s \<and>
         maxTokenSize s3 = maxTokenSize s \<and> (buffer_ok s \<longrightarrow> buffer_ok s3)"
proof -
  note sh = shift_spec[of s] and rz = resize_spec[of "shift s"]
  have sp: "0 < spare s3"
    using assms(2) unfolding s3_def by (auto intro: resize_spare)
  have ok: "buffer_ok s3" if "buffer_ok s"
    using that assms(2) sh rz unfolding s3_def buffer_ok_def by auto
  from sp ok sh rz assms(1) show ?thesis unfolding s3_def by simp
qed

lemma Scan_measure:
  assumes "err s = None"
    and "\<not> (spare (shift s) = 0 \<and>
         (len_buf (shift s) \<ge> maxTokenSize (shift s) \<or> len_buf (shift s) > maxInt div 2))"
  shows "(if err (fill (if spare (shift s) = 0 then resize (shift s) else shift s)) = None
          then Suc (length (concat (chunks (r (fill (if spare (shift s) = 0 then resize (shift s) else shift s))))))
          else 0)
         < (if err s = None then Suc (length (concat (chunks (r s)))) else 0)"
proof -
  let ?s3 = "if spare (shift s) = 0 then resize (shift s) else shift s"
  from room_spec[OF assms] have "err ?s3 = None" "0 < spare ?s3" "r ?s3 = r s" by simp_all
  from fill_progress[OF this(1,2)] this(3) assms(1) show ?thesis by auto
qed

lemma advance_full:
  "n \<le> length (buf s) \<Longrightarrow> full (Scanner_advance n s) = drop n (full s)"
  by (simp add: Scanner_advance_def full_def)

lemma advance_len_buf:
  "n \<le> length (buf s) \<Longrightarrow> len_buf (Scanner_advance n s) = len_buf s"
  by (simp add: Scanner_advance_def len_buf_def)

text \<open>
  A token is the first record of the input that is left, and \<^verbatim>\<open>Scan\<close> returns false only
  with an error set.
\<close>

lemma Scan_sound:
  "Scan rs s = (res, s') \<Longrightarrow>
   (case res of
      Some t \<Rightarrow> full s \<noteq> [] \<and> t = first_record rs (full s) \<and> full s' = drop (length t) (full s)
    | None \<Rightarrow> err s' \<noteq> None)"
proof (induction "if err s = None then Suc (length (concat (chunks (r s)))) else 0"
    arbitrary: s rule: less_induct)
  case less
  show ?case
  proof (cases rule: Scan_cases[of rs s])
    case sep
    then have fr: "first_record rs (full s) = first_record rs (buf s)"
      by (simp add: full_def first_record_append)
    from sep have "full s \<noteq> []" by (auto simp: full_def)
    with Scan_sep[OF sep] less.prems fr
      advance_full[OF first_record_le, of rs s] show ?thesis by auto
  next
    case rest
    then have fb: "full s = buf s" by (cases "err s") (simp_all add: full_def)
    have "full (Scanner_advance (length (buf s)) s) = []"
      using advance_full[of "length (buf s)" s] fb by simp
    moreover have "res = Some (buf s)" and "s' = Scanner_advance (length (buf s)) s"
      using Scan_rest[OF rest] less.prems by simp_all
    ultimately show ?thesis using fb rest by (simp add: first_record_no_sep)
  next
    case ended
    with Scan_done[OF ended] less.prems show ?thesis by auto
  next
    case too_long
    with Scan_too_long[OF too_long] less.prems show ?thesis by (auto simp: setErr_def)
  next
    case more
    let ?s4 = "fill (if spare (shift s) = 0 then resize (shift s) else shift s)"
    from room_spec[OF more(2,3)] fill_spec[of "if spare (shift s) = 0 then resize (shift s) else shift s"]
    have f4: "full ?s4 = full s" by simp
    from Scan_more[OF more] less.prems have "Scan rs ?s4 = (res, s')" by simp
    from less.hyps[OF Scan_measure[OF more(2,3)] this, unfolded f4] show ?thesis .
  qed
qed

lemma Scan_maxTokenSize: "maxTokenSize (snd (Scan rs s)) = maxTokenSize s"
proof (induction "if err s = None then Suc (length (concat (chunks (r s)))) else 0"
    arbitrary: s rule: less_induct)
  case less
  show ?case
  proof (cases rule: Scan_cases[of rs s])
    case sep
    with Scan_sep[OF sep] show ?thesis by (simp add: Scanner_advance_def)
  next
    case rest
    with Scan_rest[OF rest] show ?thesis by (simp add: Scanner_advance_def)
  next
    case ended
    with Scan_done[OF ended] show ?thesis by simp
  next
    case too_long
    with Scan_too_long[OF too_long] shift_spec[of s] show ?thesis by (simp add: setErr_def)
  next
    case more
    let ?s3 = "if spare (shift s) = 0 then resize (shift s) else shift s"
    from room_spec[OF more(2,3)] fill_spec[of ?s3]
    have "maxTokenSize (fill ?s3) = maxTokenSize s" by simp
    with less.hyps[OF Scan_measure[OF more(2,3)]] Scan_more[OF more] show ?thesis by simp
  qed
qed

text \<open>
  With a buffer within its limit, \<^verbatim>\<open>Scan\<close> finds the first record of a non-empty input if
  and only if the scanner already has an error (the record is then the rest of the
  buffer) or the record fits; otherwise it gives up with \<^verbatim>\<open>ErrTooLong\<close>.
\<close>

lemma Scan_complete:
  "buffer_ok s \<Longrightarrow> full s \<noteq> [] \<Longrightarrow>
   buffer_ok (snd (Scan rs s)) \<and>
   (if err s \<noteq> None \<or> fits_in (maxTokenSize s) rs (first_record rs (full s))
    then fst (Scan rs s) \<noteq> None
    else fst (Scan rs s) = None \<and> err (snd (Scan rs s)) = Some ErrTooLong)"
proof (induction "if err s = None then Suc (length (concat (chunks (r s)))) else 0"
    arbitrary: s rule: less_induct)
  case less
  note ok = less.prems(1) and ne = less.prems(2)
  show ?case
  proof (cases rule: Scan_cases[of rs s])
    case sep
    have le: "length (first_record rs (buf s)) \<le> length (buf s)" by (rule first_record_le)
    have fr: "first_record rs (full s) = first_record rs (buf s)"
      using sep by (simp add: full_def first_record_append)
    have "length (buf s) \<le> maxTokenSize s" using ok by (simp add: buffer_ok_def len_buf_def)
    with le first_record_has_sep[OF sep] have "fits_in (maxTokenSize s) rs (first_record rs (buf s))"
      by (simp add: fits_in_def)
    moreover have "buffer_ok (Scanner_advance (length (first_record rs (buf s))) s)"
      using ok advance_len_buf[OF le] by (simp add: buffer_ok_def Scanner_advance_def)
    ultimately show ?thesis using Scan_sep[OF sep] fr by simp
  next
    case rest
    have "buffer_ok (Scanner_advance (length (buf s)) s)"
      using ok advance_len_buf[of "length (buf s)" s] by (simp add: buffer_ok_def Scanner_advance_def)
    with Scan_rest[OF rest] rest show ?thesis by simp
  next
    case ended
    with ne show ?thesis by (simp add: full_def)
  next
    case too_long
    note sh = shift_spec[of s]
    from too_long(3) ok sh have "maxTokenSize s \<le> length (buf s)"
      by (auto simp: buffer_ok_def)
    from not_fits_beyond[OF too_long(1) this] too_long(2)
    have nf: "\<not> fits_in (maxTokenSize s) rs (first_record rs (full s))"
      by (simp add: full_def)
    have "buffer_ok (setErr ErrTooLong (shift s))"
      using ok sh by (simp add: buffer_ok_def)
    with Scan_too_long[OF too_long] nf too_long(2) show ?thesis
      by (simp add: setErr_def)
  next
    case more
    let ?s3 = "if spare (shift s) = 0 then resize (shift s) else shift s"
    let ?s4 = "fill ?s3"
    note rm = room_spec[OF more(2,3)]
    from rm have e3: "err ?s3 = None" and sp3: "0 < spare ?s3" by simp_all
    note fl = fill_spec[OF e3 sp3]
    from rm ok have ok3: "buffer_ok ?s3" by simp
    have ok4: "buffer_ok ?s4" using ok3 fl by (simp add: buffer_ok_def)
    have f4: "full ?s4 = full s" using fl rm by simp
    have m4: "maxTokenSize ?s4 = maxTokenSize s" using fl rm by simp
    note ih = less.hyps[OF Scan_measure[OF more(2,3)] ok4, unfolded f4 m4, OF ne]
    have sc: "Scan rs s = Scan rs ?s4" by (rule Scan_more[OF more])
    show ?thesis
    proof (cases "err ?s4 = None")
      case True
      with ih sc more(2) show ?thesis by simp
    next
      case False
      with fl rm have fb: "full s = buf s" by simp
      have "length (buf s) < maxTokenSize s"
      proof -
        note sh = shift_spec[of s]
        have "len_buf (shift s) \<le> maxTokenSize s" using ok sh by (simp add: buffer_ok_def)
        moreover have "length (buf s) \<le> len_buf (shift s)"
          using sh by (simp add: len_buf_def)
        moreover have "spare (shift s) = 0 \<longrightarrow> len_buf (shift s) < maxTokenSize s"
          using more(3) sh by auto
        moreover have "0 < spare (shift s) \<longrightarrow> length (buf s) < len_buf (shift s)"
          using sh by (simp add: len_buf_def)
        ultimately show ?thesis by (cases "spare (shift s) = 0") auto
      qed
      with more(1) fb have "fits_in (maxTokenSize s) rs (first_record rs (full s))"
        by (simp add: fits_in_def first_record_no_sep)
      with ih sc False show ?thesis by simp
    qed
  qed
qed

lemma Scan_token_progress:
  assumes "Scan rs s = (Some t, s')"
  shows "length (full s') < length (full s)"
proof -
  from Scan_sound[OF assms]
  have ne: "full s \<noteq> []" and t: "t = first_record rs (full s)"
    and f: "full s' = drop (length t) (full s)" by simp_all
  from t ne have "t \<noteq> []" by (simp add: first_record_nonempty)
  with f ne show ?thesis by simp
qed

lemma Read_progress:
  assumes "Read p lr = ((p', n, None), lr')"
  shows "length (full (scanner lr')) < length (full (scanner lr))"
proof (cases "Scan (RS (awkVars lr)) (scanner lr)")
  case (Pair tok sc)
  show ?thesis
  proof (cases tok)
    case None
    with Pair assms show ?thesis by (simp add: Read_def split: if_splits)
  next
    case (Some t)
    with Pair assms have "scanner lr' = sc"
      by (auto simp: Read_def split: prod.splits)
    with Scan_token_progress Pair Some show ?thesis by simp
  qed
qed

section \<open>Draining the Reader\<close>

text \<open>
  \<^verbatim>\<open>Discard\<close> (lines 195-198) is \<^verbatim>\<open>io.Copy(ioutil.Discard, lr)\<close>, which runs the
  \<^verbatim>\<open>ReadFrom\<close> loop of \<^verbatim>\<open>ioutil.Discard\<close>: it calls \<^verbatim>\<open>lr.Read\<close> with a buffer of 8192 bytes until
  that returns an error, and reports \<open>EOF\<close> as nil.  The loop ends because every pull
  without an error has taken a token from the input.
\<close>

function discard_ReadFrom :: "string \<Rightarrow> 's Reader \<Rightarrow> error option \<times> 's Reader" where
  "discard_ReadFrom p lr =
     (case Read p lr of
        ((p', readSize, e), lr') \<Rightarrow>
          (case e of
             None \<Rightarrow> discard_ReadFrom p' lr'
           | Some er \<Rightarrow> if er = EOF then (None, lr') else (Some er, lr')))"
  by pat_completeness auto
termination
  by (relation "measure (\<lambda>(p, lr). length (full (scanner lr)))")
     (auto dest: Read_progress[OF sym])

declare discard_ReadFrom.simps [simp del]

definition Discard :: "'s Reader \<Rightarrow> error option \<times> 's Reader" where
  "Discard lr = discard_ReadFrom (replicate 8192 (CHR 0x00)) lr"

text \<open>
  \<^verbatim>\<open>ReadAllSlice\<close> (lines 201-209) and \<^verbatim>\<open>ReadAllSliceString\<close> (lines 217-225).  The
  variable \<^verbatim>\<open>result\<close> of a call is a fresh slot of \<open>results\<close>, made by \<open>new_result\<close>
  (\<^verbatim>\<open>result := [][]byte{}\<close>); the function literal appends the line to it and returns an
  empty line.  \<^verbatim>\<open>ReadAllSliceString\<close> appends the copy \<^verbatim>\<open>string(line)\<close>.  The slices that
  \<^verbatim>\<open>ReadAllSlice\<close> appends are taken by value as well: an entry is the record as it is
  when it is collected.  In Go these slices share the scanner's buffer, so the bytes of
  an entry collected earlier can change when the scanner later moves or overwrites its
  data; the model does not follow that, and what is proved below of \<^verbatim>\<open>ReadAllSlice\<close> is
  its error, the number of its entries, its filter and the entry a pull appends.
  \<^verbatim>\<open>ReadAll\<close> and \<^verbatim>\<open>ReadAllString\<close>, which hand the Reader to \<^verbatim>\<open>ioutil.ReadAll\<close>, are not
  modelled.
\<close>

definition new_result :: "'s Captured \<Rightarrow> 's Captured" where
  "new_result cap =
     cap\<lparr>results := (results cap)(allocated cap := []), allocated := allocated cap + 1\<rparr>"

definition ReadAllSlice_closure :: "nat \<Rightarrow> 's env \<Rightarrow> string \<Rightarrow> string \<times> 's env" where
  "ReadAllSlice_closure slot env line =
     (case env of
        (vars, cap) \<Rightarrow>
          (nullBytes, (vars, cap\<lparr>results := (results cap)(slot := results cap slot @ [line])\<rparr>)))"

definition ReadAllSlice :: "'s Reader \<Rightarrow> (string list \<times> error option) \<times> 's Reader" where
  "ReadAllSlice lr =
     (let slot = allocated (captured lr)
      in case Discard (Map (ReadAllSlice_closure slot)
                         (lr\<lparr>captured := new_result (captured lr)\<rparr>)) of
           (e, lr2) \<Rightarrow> ((results (captured lr2) slot, e), lr2))"

definition ReadAllSliceString_closure :: "nat \<Rightarrow> 's env \<Rightarrow> string \<Rightarrow> string \<times> 's env" where
  "ReadAllSliceString_closure slot env line =
     (case env of
        (vars, cap) \<Rightarrow>
          ([], (vars, cap\<lparr>results := (results cap)(slot := results cap slot @ [line])\<rparr>)))"

definition ReadAllSliceString :: "'s Reader \<Rightarrow> (string list \<times> error option) \<times> 's Reader" where
  "ReadAllSliceString lr =
     (let slot = allocated (captured lr)
      in case Discard (MapString (ReadAllSliceString_closure slot)
                         (lr\<lparr>captured := new_result (captured lr)\<rparr>)) of
           (e, lr2) \<Rightarrow> ((results (captured lr2) slot, e), lr2))"

section \<open>Notions used in the statements\<close>

text \<open>
  \<open>Tokens rs s\<close> are the records the Tokenizer yields from scanner \<open>s\<close>: the tokens of
  successive \<^verbatim>\<open>Scan\<close> calls until \<^verbatim>\<open>Scan\<close> returns false, with separator \<open>rs\<close>.
\<close>

function Tokens :: "char \<Rightarrow> Scanner \<Rightarrow> string list" where
  "Tokens rs s = (case Scan rs s of (Some token, s') \<Rightarrow> token # Tokens rs s' | (None, s') \<Rightarrow> [])"
  by pat_completeness auto
termination
  by (relation "measure (\<lambda>(rs, s). length (full s))") (auto dest: Scan_token_progress[OF sym])

declare Tokens.simps [simp del]

text \<open>
  \<open>records rs xs\<close> cuts \<open>xs\<close> after every separator byte: the description of the
  Tokenizer that the scanner is compared with.
\<close>

fun records :: "char \<Rightarrow> string \<Rightarrow> string list" where
  "records rs [] = []"
| "records rs (x # xs) =
     (if x = rs then [x] # records rs xs
      else (case records rs xs of [] \<Rightarrow> [[x]] | y # ys \<Rightarrow> (x # y) # ys))"

text \<open>
  \<open>input src\<close> is the input that the source \<open>src\<close> delivers to a new scanner: all its
  bytes, up to the place, if there is one, where it returns no data 101 times in a row.
  A record \<open>fits\<close> when it fits the buffer of a scanner made by \<^verbatim>\<open>NewScanner\<close>, which grows
  to \<^verbatim>\<open>MaxScanTokenSize\<close> bytes: at most 65536 bytes with its separator, at most 65535
  bytes for a last record without one.
\<close>

definition input :: "Source \<Rightarrow> string" where
  "input src = delivered 0 (chunks src)"

definition fits :: "char \<Rightarrow> string \<Rightarrow> bool" where
  "fits rs t = fits_in MaxScanTokenSize rs t"

text \<open>
  \<open>passes fs line env\<close> runs the filters \<open>fs\<close> one after the other as long as each
  returns a nil error: \<open>Some\<close> of the line and environment they leave, \<open>None\<close> when one of
  them returns an error (the omit sentinel included).
\<close>

fun passes :: "'s filterFunc list \<Rightarrow> string \<Rightarrow> 's env \<Rightarrow> (string \<times> 's env) option" where
  "passes [] line env = Some (line, env)"
| "passes (f # fs) line env =
     (case f env line of
        ((line', e), env') \<Rightarrow> (case e of None \<Rightarrow> passes fs line' env' | Some er \<Rightarrow> None))"

text \<open>
  A filter function \<open>keeps_results\<close> when it leaves the \<^verbatim>\<open>result\<close> slices of the collect
  helpers alone, as every closure does that is not the helper's own: the variable
  \<^verbatim>\<open>result\<close> is local to the helper's call.
\<close>

definition keeps_results :: "'s filterFunc \<Rightarrow> bool" where
  "keeps_results f = (\<forall>env line. results (snd (snd (f env line))) = results (snd env))"

text \<open>
  \<open>pulls n p lr\<close> is the Reader after \<open>n\<close> successive \<^verbatim>\<open>Read\<close> calls of a caller that
  reuses its buffer, and \<open>tokenized n p lr\<close> the number of those calls in which the
  Tokenizer produced a record.  A filter function \<open>keeps_NR\<close> when it leaves
  \<^verbatim>\<open>awkVars.NR\<close> as it is; the field is not exported, and no closure of byline.go
  writes it.
\<close>

definition keeps_NR :: "'s filterFunc \<Rightarrow> bool" where
  "keeps_NR f = (\<forall>env line. NR (fst (snd (f env line))) = NR (fst env))"

fun pulls :: "nat \<Rightarrow> string \<Rightarrow> 's Reader \<Rightarrow> 's Reader" where
  "pulls 0 p lr = lr"
| "pulls (Suc n) p lr = pulls n (fst (fst (Read p lr))) (snd (Read p lr))"

fun tokenized :: "nat \<Rightarrow> string \<Rightarrow> 's Reader \<Rightarrow> nat" where
  "tokenized 0 p lr = 0"
| "tokenized (Suc n) p lr =
     (case fst (Scan (RS (awkVars lr)) (scanner lr)) of None \<Rightarrow> 0 | Some token \<Rightarrow> 1)
     + tokenized n (fst (fst (Read p lr))) (snd (Read p lr))"


text \<open>
  \<open>clean n p lr\<close> says that the first \<open>n\<close> pulls of such a caller all return a nil
  error.
\<close>

fun clean :: "nat \<Rightarrow> string \<Rightarrow> 's Reader \<Rightarrow> bool" where
  "clean 0 p lr = True"
| "clean (Suc n) p lr =
     (snd (snd (fst (Read p lr))) = None \<and> clean n (fst (fst (Read p lr))) (snd (Read p lr)))"

text \<open>
  \<open>ReadAllSlice_reader lr\<close> and \<open>ReadAllSliceString_reader lr\<close> are the Reader that
  \<^verbatim>\<open>ReadAllSlice\<close> and \<^verbatim>\<open>ReadAllSliceString\<close> hand to \<^verbatim>\<open>Discard\<close>: \<open>lr\<close> with the new
  \<^verbatim>\<open>result\<close> variable and the collecting closure appended.
\<close>

definition ReadAllSlice_reader :: "'s Reader \<Rightarrow> 's Reader" where
  "ReadAllSlice_reader lr =
     Map (ReadAllSlice_closure (allocated (captured lr)))
       (lr\<lparr>captured := new_result (captured lr)\<rparr>)"

definition ReadAllSliceString_reader :: "'s Reader \<Rightarrow> 's Reader" where
  "ReadAllSliceString_reader lr =
     MapString (ReadAllSliceString_closure (allocated (captured lr)))
       (lr\<lparr>captured := new_result (captured lr)\<rparr>)"

text \<open>
  \<open>stripped rs line\<close> is the separator-stripped content of a record: the record without
  its last byte when that is the separator \<open>rs\<close>.
\<close>

definition stripped :: "char \<Rightarrow> string \<Rightarrow> string" where
  "stripped rs line = (if line \<noteq> [] \<and> last line = rs then butlast line else line)"

section \<open>Facts about the scanner, one pull and the drain\<close>

text \<open>
  The buffer that \<^verbatim>\<open>Read\<close> is called with does not influence the drain, so the drain can
  be computed with an empty one.
\<close>

lemma discard_buffer: "discard_ReadFrom p lr = discard_ReadFrom q lr"
proof (induction p lr arbitrary: q rule: discard_ReadFrom.induct)
  case (1 p lr)
  obtain p' n e lr' where rp: "Read p lr = ((p', n, e), lr')" by (cases "Read p lr") auto
  obtain q' where rq: "Read q lr = ((q', n, e), lr')"
    using rp by (auto simp: Read_def split: prod.splits option.splits)
  show ?case
  proof (cases e)
    case None
    from 1[OF rp[symmetric] refl refl None, of q'] rp rq None show ?thesis
      by (subst discard_ReadFrom.simps, subst (2) discard_ReadFrom.simps) simp
  next
    case (Some er)
    with rp rq show ?thesis
      by (subst discard_ReadFrom.simps, subst (2) discard_ReadFrom.simps) simp
  qed
qed

lemma Discard_code [code]: "Discard lr = discard_ReadFrom [] lr"
  unfolding Discard_def by (rule discard_buffer)

lemma records_Nil_iff: "records rs xs = [] \<longleftrightarrow> xs = []"
  by (cases xs) (auto split: list.splits)

lemma records_first:
  "xs \<noteq> [] \<Longrightarrow> records rs xs = first_record rs xs # records rs (drop (length (first_record rs xs)) xs)"
proof (induction xs)
  case Nil
  then show ?case by simp
next
  case (Cons x xs)
  show ?case
  proof (cases "x = rs")
    case True
    then show ?thesis by (simp add: first_record_def)
  next
    case False
    show ?thesis
    proof (cases "xs = []")
      case True
      with False show ?thesis by (simp add: first_record_def)
    next
      case ne: False
      from Cons.IH[OF ne] False show ?thesis
        by (auto simp: first_record_def)
    qed
  qed
qed

lemma Tokens_None: "fst (Scan rs s) = None \<Longrightarrow> Tokens rs s = []"
  by (subst Tokens.simps) (simp add: split_beta split: option.splits)

lemma Tokens_Some: "Scan rs s = (Some t, s') \<Longrightarrow> Tokens rs s = t # Tokens rs s'"
  by (subst Tokens.simps) simp

text \<open>
  The scanner yields the records of the input that is left when each of them fits its
  buffer, and stops with \<^verbatim>\<open>ErrTooLong\<close> at the first record that does not.
\<close>

lemma Tokens_records:
  "buffer_ok s \<Longrightarrow> \<forall>t\<in>set (records rs (full s)). fits_in (maxTokenSize s) rs t \<Longrightarrow>
   Tokens rs s = records rs (full s)"
proof (induction "length (full s)" arbitrary: s rule: less_induct)
  case less
  show ?case
  proof (cases "full s = []")
    case True
    have "fst (Scan rs s) = None"
    proof (cases "Scan rs s")
      case (Pair res s')
      from Scan_sound[OF Pair] True show ?thesis using Pair by (cases res) simp_all
    qed
    with True show ?thesis by (simp add: Tokens_None)
  next
    case False
    let ?t = "first_record rs (full s)"
    note rf = records_first[OF False, of rs]
    from less.prems(2) rf have ft: "fits_in (maxTokenSize s) rs ?t" by simp
    from Scan_complete[OF less.prems(1) False, of rs] ft
    have ok': "buffer_ok (snd (Scan rs s))" and some: "fst (Scan rs s) \<noteq> None" by simp_all
    then obtain t s' where sc: "Scan rs s = (Some t, s')" by (cases "Scan rs s") auto
    from Scan_sound[OF sc] have t: "t = ?t" and f: "full s' = drop (length ?t) (full s)"
      by simp_all
    from Scan_token_progress[OF sc] have lt: "length (full s') < length (full s)" .
    have m: "maxTokenSize s' = maxTokenSize s" using Scan_maxTokenSize[of rs s] sc by simp
    have "\<forall>t\<in>set (records rs (full s')). fits_in (maxTokenSize s') rs t"
      using less.prems(2) rf f m by simp
    from less.hyps[OF lt _ this] ok' sc have "Tokens rs s' = records rs (full s')" by simp
    with Tokens_Some[OF sc] t f rf show ?thesis by simp
  qed
qed

lemma Tokens_too_long:
  assumes "buffer_ok s" and "err s = None" and "full s \<noteq> []"
    and "\<not> fits_in (maxTokenSize s) rs (first_record rs (full s))"
  shows "Tokens rs s = [] \<and> fst (Scan rs s) = None \<and> err (snd (Scan rs s)) = Some ErrTooLong"
  using Scan_complete[OF assms(1,3), of rs] assms(2,4) by (simp add: Tokens_None)

lemma length_records:
  "length (records rs xs) = count_list xs rs + (if xs \<noteq> [] \<and> last xs \<noteq> rs then 1 else 0)"
proof (induction xs)
  case Nil
  then show ?case by simp
next
  case (Cons x xs)
  then show ?case
    by (cases "records rs xs") (auto simp: records_Nil_iff split: if_splits)
qed

lemma concat_records: "concat (records rs xs) = xs"
  by (induction xs) (auto split: list.splits)

lemma filter_loop_after_passes:
  "passes pre token env = Some (line, env1) \<Longrightarrow>
   filter_loop (pre @ rest) token env = filter_loop rest line env1"
  by (induction pre arbitrary: token env) (auto split: prod.splits option.splits)

lemma Read_token:
  "Scan (RS (awkVars lr)) (scanner lr) = (Some token, sc) \<Longrightarrow>
   filter_loop (filterFuncs lr) token ((awkVars lr)\<lparr>NR := NR (awkVars lr) + 1\<rparr>, captured lr)
     = ((lineBytes, bufErr), (vars, cap)) \<Longrightarrow>
   Read p lr = ((copy p lineBytes, int (length lineBytes), bufErr),
                lr\<lparr>scanner := sc, awkVars := vars, captured := cap\<rparr>)"
  by (simp add: Read_def)

lemma copy_nothing: "copy p [] = p"
  by (simp add: copy_def copy_n_def)

lemma discard_stops:
  "Read p lr = ((p', n, Some e), lr') \<Longrightarrow>
   discard_ReadFrom p lr = (if e = EOF then None else Some e, lr')"
  by (subst discard_ReadFrom.simps) simp

lemma discard_continues:
  "Read p lr = ((p', n, None), lr') \<Longrightarrow> discard_ReadFrom p lr = discard_ReadFrom p' lr'"
  by (subst discard_ReadFrom.simps) simp

lemma discard_never_EOF: "fst (discard_ReadFrom p lr) \<noteq> Some EOF"
proof (induction p lr rule: discard_ReadFrom.induct)
  case (1 p lr)
  obtain p' n e lr' where rp: "Read p lr = ((p', n, e), lr')" by (cases "Read p lr") auto
  show ?case
  proof (cases e)
    case None
    with 1[OF rp[symmetric] refl refl None] rp show ?thesis
      by (simp add: discard_continues)
  next
    case (Some er)
    with rp show ?thesis by (simp add: discard_stops)
  qed
qed

lemma discard_invariant:
  assumes step: "\<And>p lr. P lr \<Longrightarrow> P (snd (Read p lr))"
  shows "P lr \<Longrightarrow> P (snd (discard_ReadFrom p lr))"
proof (induction p lr rule: discard_ReadFrom.induct)
  case (1 p lr)
  obtain p' n e lr' where rp: "Read p lr = ((p', n, e), lr')" by (cases "Read p lr") auto
  from step[OF 1(2), of p] rp have P': "P lr'" by simp
  show ?case
  proof (cases e)
    case None
    from 1(1)[OF rp[symmetric] refl refl None P'] rp None show ?thesis
      by (simp add: discard_continues)
  next
    case (Some er)
    with rp P' show ?thesis by (simp add: discard_stops)
  qed
qed

lemma Read_filterFuncs: "filterFuncs (snd (Read p lr)) = filterFuncs lr"
  by (simp add: Read_def split: prod.splits option.splits)

lemma pulls_filterFuncs: "filterFuncs (pulls n p lr) = filterFuncs lr"
  by (induction n arbitrary: p lr) (simp_all add: Read_filterFuncs)

lemma discard_filterFuncs: "filterFuncs (snd (discard_ReadFrom p lr)) = filterFuncs lr"
  using discard_invariant[where P = "\<lambda>x. filterFuncs x = filterFuncs lr"]
  by (simp add: Read_filterFuncs)

lemma keeps_resultsD:
  "keeps_results f \<Longrightarrow> f env line = (x, env') \<Longrightarrow> results (snd env') = results (snd env)"
  unfolding keeps_results_def by (metis snd_conv)

lemma filter_loop_keeps_results:
  "\<forall>f\<in>set fs. keeps_results f \<Longrightarrow>
   results (snd (snd (filter_loop fs token env))) = results (snd env)"
proof (induction fs arbitrary: token env)
  case Nil
  then show ?case by simp
next
  case (Cons f fs)
  obtain l e env' where fe: "f env token = ((l, e), env')" by (cases "f env token") auto
  from Cons.prems have "keeps_results f" by simp
  from keeps_resultsD[OF this fe] have kf: "results (snd env') = results (snd env)" .
  show ?case
  proof (cases e)
    case None
    with fe Cons kf show ?thesis by simp
  next
    case (Some er)
    with fe kf show ?thesis by simp
  qed
qed

lemma filter_loop_never_past_omit:
  assumes pre: "\<forall>f\<in>set pre. keeps_results f"
    and g: "keeps_results g" and om: "\<And>env line. snd (fst (g env line)) = Some ErrOmitLine"
  shows "results (snd (snd (filter_loop (pre @ g # post) token env))) = results (snd env)"
  using pre
proof (induction pre arbitrary: token env)
  case Nil
  obtain l e env' where ge: "g env token = ((l, e), env')" by (cases "g env token") auto
  with om[of env token] have "e = Some ErrOmitLine" by simp
  moreover from keeps_resultsD[OF g ge] have "results (snd env') = results (snd env)" .
  ultimately show ?case using ge by simp
next
  case (Cons f fs)
  obtain l e env' where fe: "f env token = ((l, e), env')" by (cases "f env token") auto
  from Cons.prems have "keeps_results f" by simp
  from keeps_resultsD[OF this fe] have kf: "results (snd env') = results (snd env)" .
  show ?case
  proof (cases e)
    case None
    with fe Cons kf show ?thesis by simp
  next
    case (Some er)
    with fe kf show ?thesis by simp
  qed
qed

lemma Read_results:
  assumes "\<And>token env. results (snd (snd (filter_loop (filterFuncs lr) token env))) = results (snd env)"
  shows "results (captured (snd (Read p lr))) = results (captured lr)"
proof (cases "Scan (RS (awkVars lr)) (scanner lr)")
  case (Pair tok sc)
  show ?thesis
  proof (cases tok)
    case None
    with Pair show ?thesis by (simp add: Read_def)
  next
    case (Some t)
    let ?env = "((awkVars lr)\<lparr>NR := NR (awkVars lr) + 1\<rparr>, captured lr)"
    obtain l e v c where fl: "filter_loop (filterFuncs lr) t ?env = ((l, e), (v, c))"
      by (cases "filter_loop (filterFuncs lr) t ?env") auto
    from assms[of t ?env] fl have "results c = results (captured lr)" by simp
    with Pair Some fl show ?thesis by (simp add: Read_def)
  qed
qed

lemma drain_keeps_results:
  fixes lr :: "'s Reader"
  assumes "\<And>token env. results (snd (snd (filter_loop (filterFuncs lr) token env))) = results (snd env)"
  shows "results (captured (snd (discard_ReadFrom p lr))) = results (captured lr)"
proof -
  let ?P = "\<lambda>x :: 's Reader. filterFuncs x = filterFuncs lr \<and> results (captured x) = results (captured lr)"
  have "?P (snd (discard_ReadFrom p lr))"
  proof (rule discard_invariant[where P = ?P])
    fix q x assume a: "?P x"
    have "results (captured (snd (Read q x))) = results (captured x)"
    proof (rule Read_results)
      fix token env
      show "results (snd (snd (filter_loop (filterFuncs x) token env))) = results (snd env)"
        using a assms by simp
    qed
    with a show "?P (snd (Read q x))"
      by (simp add: Read_filterFuncs)
  qed simp
  then show ?thesis by simp
qed

lemma collect_nothing:
  assumes pre: "\<forall>f\<in>set pre. keeps_results f"
    and g: "keeps_results g" and om: "\<And>env line. snd (fst (g env line)) = Some ErrOmitLine"
    and chain: "filterFuncs lr = pre @ g # post"
  shows "results (captured (snd (Discard (MapErr c (lr\<lparr>captured := new_result (captured lr)\<rparr>)))))
           (allocated (captured lr)) = []"
proof -
  let ?lr1 = "MapErr c (lr\<lparr>captured := new_result (captured lr)\<rparr>)"
  have fc: "filterFuncs ?lr1 = pre @ g # (post @ [c])" using chain by (simp add: MapErr_def)
  have "results (captured (snd (discard_ReadFrom [] ?lr1))) = results (captured ?lr1)"
    by (rule drain_keeps_results) (simp only: fc filter_loop_never_past_omit[OF pre g om])
  then show ?thesis by (simp add: Discard_code MapErr_def new_result_def)
qed

lemma drain_collects:
  fixes lr :: "'s Reader"
  assumes "filterFuncs lr = [c]"
    and "c = MapString_closure (ReadAllSliceString_closure slot)"
  shows "results (captured (snd (discard_ReadFrom p lr))) slot =
           results (captured lr) slot @ Tokens (RS (awkVars lr)) (scanner lr)"
  using assms(1)
proof (induction "length (full (scanner lr))" arbitrary: lr p rule: less_induct)
  case less
  let ?rs = "RS (awkVars lr)"
  obtain res sc where sc: "Scan ?rs (scanner lr) = (res, sc)" by (cases "Scan ?rs (scanner lr)") auto
  show ?case
  proof (cases res)
    case None
    obtain e where "(if Err sc = None then Some EOF else Err sc) = Some e"
      by (cases "Err sc") auto
    with sc None have "Read p lr = ((p, 0, Some e), lr\<lparr>scanner := sc\<rparr>)"
      by (simp add: Read_def nullBytes_def copy_nothing)
    from discard_stops[OF this] sc None show ?thesis by (simp add: Tokens_None)
  next
    case (Some t)
    let ?vars = "(awkVars lr)\<lparr>NR := NR (awkVars lr) + 1\<rparr>"
    let ?cap = "(captured lr)\<lparr>results := (results (captured lr))(slot := results (captured lr) slot @ [t])\<rparr>"
    let ?lr' = "lr\<lparr>scanner := sc, awkVars := ?vars, captured := ?cap\<rparr>"
    from sc Some have sct: "Scan ?rs (scanner lr) = (Some t, sc)" by simp
    have cc: "c (?vars, captured lr) t = (([], None), (?vars, ?cap))"
      using assms(2) by (simp add: MapString_closure_def ReadAllSliceString_closure_def)
    have rd: "Read p lr = ((copy p [], int (length ([]::string)), None), ?lr')"
      by (rule Read_token[OF sct]) (simp add: less.prems cc)
    from Scan_token_progress[OF sct]
    have lt: "length (full (scanner ?lr')) < length (full (scanner lr))" by simp
    have fl': "filterFuncs ?lr' = [c]" using less.prems by simp
    from less.hyps[OF lt fl', of "copy p []"] discard_continues[OF rd] Tokens_Some[OF sct]
    show ?thesis by simp
  qed
qed

text \<open>
  The buffer a pull is called with influences neither its error nor the Reader it
  leaves, and a drain whose first \<open>n\<close> pulls return a nil error goes on from the Reader
  they leave.
\<close>

lemma Read_buffer:
  "snd (Read p lr) = snd (Read q lr) \<and> snd (fst (Read p lr)) = snd (fst (Read q lr))"
  by (simp add: Read_def split: prod.splits option.splits)

lemma pulls_buffer: "pulls n p lr = pulls n q lr"
proof (induction n arbitrary: p q lr)
  case 0
  then show ?case by simp
next
  case (Suc n)
  have "pulls n (fst (fst (Read p lr))) (snd (Read p lr)) =
        pulls n (fst (fst (Read q lr))) (snd (Read p lr))" by (rule Suc.IH)
  with Read_buffer[of p lr q] show ?case by simp
qed

lemma discard_after_clean:
  "clean n p lr \<Longrightarrow> discard_ReadFrom p lr = discard_ReadFrom q (pulls n p lr)"
proof (induction n arbitrary: p lr)
  case 0
  then show ?case by (simp add: discard_buffer[of p lr q])
next
  case (Suc n)
  obtain p' k e lr' where rd: "Read p lr = ((p', k, e), lr')" by (cases "Read p lr") auto
  from Suc.prems rd have e: "e = None" and cl: "clean n p' lr'" by simp_all
  from discard_continues[OF rd[unfolded e]] Suc.IH[OF cl] rd show ?case by simp
qed

text \<open>
  The closures that the builder methods create write neither \<^verbatim>\<open>awkVars.NR\<close> nor the \<^verbatim>\<open>result\<close>
  slices of the collect helpers when the callback they wrap does not, and the helpers'
  own closures do not write \<open>NR\<close>: the hypotheses \<open>keeps_NR\<close> and \<open>keeps_results\<close> hold of
  every chain built from such callbacks.
\<close>

lemma Map_closures_keep_NR:
  assumes "\<And>env line. NR (fst (snd (fn env line))) = NR (fst env)"
  shows "keeps_NR (Map_closure fn)" and "keeps_NR (MapString_closure fn)"
  using assms by (simp_all add: keeps_NR_def Map_closure_def MapString_closure_def split_beta)

lemma Grep_closures_keep_NR:
  assumes "\<And>env line. NR (fst (snd (pr env line))) = NR (fst env)"
  shows "keeps_NR (Grep_closure pr)" and "keeps_NR (Grep_closure (GrepString_closure pr))"
  using assms by (simp_all add: keeps_NR_def Grep_closure_def GrepString_closure_def split_beta)

lemma GrepByRegexp_closure_keeps_NR: "keeps_NR (Grep_closure (GrepByRegexp_closure re))"
  by (simp add: keeps_NR_def Grep_closure_def GrepByRegexp_closure_def)

lemma MapStringErr_closure_keeps_NR: "keeps_NR f \<Longrightarrow> keeps_NR (MapStringErr_closure f)"
  by (simp add: keeps_NR_def MapStringErr_closure_def split_beta)

lemma AWKMode_closure_keeps_NR:
  assumes "\<And>env l fs v. NR (fst (snd (cb env l fs v))) = NR (fst env)"
  shows "keeps_NR (AWKMode_closure cb)"
  using assms
  by (simp add: keeps_NR_def AWKMode_closure_def AWKMode_result_def Let_def split_beta)

lemma collectors_keep_NR:
  "keeps_NR (Map_closure (ReadAllSlice_closure slot))"
  "keeps_NR (MapString_closure (ReadAllSliceString_closure slot))"
  by (simp_all add: keeps_NR_def Map_closure_def MapString_closure_def
      ReadAllSlice_closure_def ReadAllSliceString_closure_def split_beta)

lemma Map_closures_keep_results:
  assumes "\<And>env line. results (snd (snd (fn env line))) = results (snd env)"
  shows "keeps_results (Map_closure fn)" and "keeps_results (MapString_closure fn)"
  using assms by (simp_all add: keeps_results_def Map_closure_def MapString_closure_def split_beta)

lemma Grep_closures_keep_results:
  assumes "\<And>env line. results (snd (snd (pr env line))) = results (snd env)"
  shows "keeps_results (Grep_closure pr)" and "keeps_results (Grep_closure (GrepString_closure pr))"
  using assms
  by (simp_all add: keeps_results_def Grep_closure_def GrepString_closure_def split_beta)

lemma GrepByRegexp_closure_keeps_results: "keeps_results (Grep_closure (GrepByRegexp_closure re))"
  by (simp add: keeps_results_def Grep_closure_def GrepByRegexp_closure_def)

lemma MapStringErr_closure_keeps_results:
  "keeps_results f \<Longrightarrow> keeps_results (MapStringErr_closure f)"
  by (simp add: keeps_results_def MapStringErr_closure_def split_beta)

lemma AWKMode_closure_keeps_results:
  assumes "\<And>env l fs v. results (snd (snd (cb env l fs v))) = results (snd env)"
  shows "keeps_results (AWKMode_closure cb)"
  using assms
  by (simp add: keeps_results_def AWKMode_closure_def AWKMode_result_def Let_def split_beta)

section \<open>Record count of the Tokenizer\<close>

lemma NewScanner_ok: "buffer_ok (NewScanner src)"
  by (simp add: buffer_ok_def NewScanner_def len_buf_def MaxScanTokenSize_def maxInt_def)

lemma full_NewScanner: "full (NewScanner src) = input src"
  by (simp add: full_def NewScanner_def input_def)

lemma delivered_concat: "[] \<notin> set cs \<Longrightarrow> delivered 0 cs = concat cs"
  by (induction cs) auto

lemma collect_all_records:
  "fst (fst (ReadAllSliceString (NewReader src u))) = Tokens defaultRS (NewScanner src)"
proof -
  let ?c = "MapString_closure (ReadAllSliceString_closure 0)"
  define lr :: "'a Reader" where
    "lr = MapString (ReadAllSliceString_closure 0)
            ((NewReader src u)\<lparr>captured := new_result (captured (NewReader src u))\<rparr>)"
  have fl: "filterFuncs lr = [?c]"
    by (simp add: lr_def MapString_def MapErr_def NewReader_def)
  have st: "results (captured lr) 0 = []" "RS (awkVars lr) = defaultRS"
      "scanner lr = NewScanner src" "allocated (captured (NewReader src u)) = 0"
    by (simp_all add: lr_def MapString_def MapErr_def NewReader_def new_result_def)
  from drain_collects[OF fl refl, of "[]"] st
  have "results (captured (snd (Discard lr))) 0 = Tokens defaultRS (NewScanner src)"
    by (simp add: Discard_code)
  then show ?thesis
    by (simp add: ReadAllSliceString_def Let_def split_beta st(4) lr_def[symmetric])
qed

text \<open>
  C3, as the code has it.  When every record of the input fits the scanner's buffer, the
  Tokenizer yields exactly the records of the input: with N occurrences of the separator
  byte, N + 1 records when the final fragment (what follows the last separator) is
  non-empty and N records when it is empty, however the source cuts the input into
  chunks.  The input is all the bytes of a source that never returns an empty chunk.
  An empty input yields no record; \<^verbatim>\<open>ReadAllSliceString\<close> on a new Reader collects exactly
  the records of the Tokenizer; and the input \<^verbatim>\<open>"foo\nbar\nbaz"\<close> collected with
  \<^verbatim>\<open>ReadAllSliceString\<close> yields \<^verbatim>\<open>["foo\n", "bar\n", "baz"]\<close> and a nil error.
\<close>

theorem tokenizer_record_count:
  "((\<forall>t\<in>set (records rs (input src)). fits rs t) \<longrightarrow>
      Tokens rs (NewScanner src) = records rs (input src) \<and>
      length (Tokens rs (NewScanner src)) =
        count_list (input src) rs + (if input src \<noteq> [] \<and> last (input src) \<noteq> rs then 1 else 0))
   \<and> ([] \<notin> set (chunks src) \<longrightarrow> input src = concat (chunks src))
   \<and> Tokens rs (NewScanner \<lparr>chunks = [], final = fin\<rparr>) = []
   \<and> fst (fst (ReadAllSliceString (NewReader src u))) = Tokens defaultRS (NewScanner src)
   \<and> fst (ReadAllSliceString (NewReader \<lparr>chunks = [''foo\<newline>bar\<newline>baz''], final = EOF\<rparr> u)) =
       ([''foo\<newline>'', ''bar\<newline>'', ''baz''], None)"
proof -
  have mx: "maxTokenSize (NewScanner x) = MaxScanTokenSize" for x
    by (simp add: NewScanner_def)
  have tr: "Tokens rs (NewScanner x) = records rs (input x)"
    if "\<forall>t\<in>set (records rs (input x)). fits rs t" for x
    using Tokens_records[OF NewScanner_ok, of rs x] that
    by (simp add: full_NewScanner mx fits_def)
  have count: "Tokens rs (NewScanner src) = records rs (input src) \<and>
      length (Tokens rs (NewScanner src)) =
        count_list (input src) rs + (if input src \<noteq> [] \<and> last (input src) \<noteq> rs then 1 else 0)"
    if "\<forall>t\<in>set (records rs (input src)). fits rs t"
    using tr[OF that] by (simp only: length_records)
  have whole: "input src = concat (chunks src)" if "[] \<notin> set (chunks src)"
    using that by (simp add: input_def delivered_concat)
  have empty: "Tokens rs (NewScanner \<lparr>chunks = [], final = fin\<rparr>) = []"
    using tr[of "\<lparr>chunks = [], final = fin\<rparr>"] by (simp add: input_def)
  have collected: "fst (fst (ReadAllSliceString (NewReader src u))) =
       Tokens defaultRS (NewScanner src)"
    by (rule collect_all_records)
  have example: "fst (ReadAllSliceString (NewReader \<lparr>chunks = [''foo\<newline>bar\<newline>baz''], final = EOF\<rparr> u)) =
       ([''foo\<newline>'', ''bar\<newline>'', ''baz''], None)"
    by code_simp
  from count whole empty collected example show ?thesis by blast
qed

theorem tokenizer_record_count_witness:
  "input \<lparr>chunks = [''foo\<newline>'', ''bar\<newline>b'', [], ''az''], final = EOF\<rparr> = ''foo\<newline>bar\<newline>baz''
   \<and> Tokens (CHR 0x0A) (NewScanner \<lparr>chunks = [''foo\<newline>'', ''bar\<newline>b'', [], ''az''], final = EOF\<rparr>)
       = [''foo\<newline>'', ''bar\<newline>'', ''baz'']
   \<and> length (Tokens (CHR 0x0A)
        (NewScanner \<lparr>chunks = [''foo\<newline>'', ''bar\<newline>b'', [], ''az''], final = EOF\<rparr>)) = 3
   \<and> input \<lparr>chunks = [''foo\<newline>'', ''bar''], final = EOF\<rparr> = concat [''foo\<newline>'', ''bar'']"
proof -
  define src where "src = \<lparr>chunks = [''foo\<newline>'', ''bar\<newline>b'', [], ''az''], final = EOF\<rparr>"
  have inp: "input src = ''foo\<newline>bar\<newline>baz''"
    by (simp add: src_def input_def maxConsecutiveEmptyReads_def)
  have rec: "records (CHR 0x0A) ''foo\<newline>bar\<newline>baz'' = [''foo\<newline>'', ''bar\<newline>'', ''baz'']"
    by simp
  have fit: "\<forall>t\<in>set (records (CHR 0x0A) (input src)). fits (CHR 0x0A) t"
    unfolding inp rec by (simp add: fits_def fits_in_def MaxScanTokenSize_def)
  have ne: "[] \<notin> set (chunks \<lparr>chunks = [''foo\<newline>'', ''bar''], final = EOF\<rparr>)"
    by simp
  note inst = tokenizer_record_count[of "CHR 0x0A" src]
  from mp[OF inst[THEN conjunct1] fit]
  have "Tokens (CHR 0x0A) (NewScanner src) = records (CHR 0x0A) (input src)"
    by simp
  then have a: "Tokens (CHR 0x0A) (NewScanner src) = [''foo\<newline>'', ''bar\<newline>'', ''baz'']"
    unfolding inp rec .
  from mp[OF tokenizer_record_count[of "CHR 0x0A" "\<lparr>chunks = [''foo\<newline>'', ''bar''], final = EOF\<rparr>",
        THEN conjunct2, THEN conjunct1] ne]
  have b: "input \<lparr>chunks = [''foo\<newline>'', ''bar''], final = EOF\<rparr> = concat [''foo\<newline>'', ''bar'']"
    by simp
  from inp a b show ?thesis unfolding src_def by simp
qed

text \<open>
  A record that does not fit the buffer is not tokenized.  An input of 70000 bytes
  without a separator has one non-empty final fragment and no separator, so it should
  yield one record; the scanner fills its buffer of 65536 bytes, finds no separator in
  it and gives up: the Tokenizer yields no record, and \<^verbatim>\<open>ReadAllSliceString\<close> returns no
  record and the error \<^verbatim>\<open>bufio.ErrTooLong\<close>.
\<close>

theorem long_record_is_not_tokenized:
  "Tokens (CHR 0x0A) (NewScanner \<lparr>chunks = [replicate 70000 (CHR ''a'')], final = EOF\<rparr>) = []
   \<and> fst (ReadAllSliceString (NewReader \<lparr>chunks = [replicate 70000 (CHR ''a'')], final = EOF\<rparr> ()))
       = ([], Some ErrTooLong)
   \<and> input \<lparr>chunks = [replicate 70000 (CHR ''a'')], final = EOF\<rparr> = replicate 70000 (CHR ''a'')
   \<and> count_list (replicate 70000 (CHR ''a'')) (CHR 0x0A) = 0
   \<and> last (replicate 70000 (CHR ''a'')) = CHR ''a''"
proof -
  define src where "src = \<lparr>chunks = [replicate 70000 (CHR ''a'')], final = EOF\<rparr>"
  define s where "s = NewScanner src"
  define lr :: "unit Reader" where
    "lr = MapString (ReadAllSliceString_closure 0)
            ((NewReader src ())\<lparr>captured := new_result (captured (NewReader src ()))\<rparr>)"
  have inp: "input src = replicate 70000 (CHR ''a'')"
    by (simp add: src_def input_def)
  have f: "full s = replicate 70000 (CHR ''a'')"
    by (simp add: s_def full_NewScanner inp)
  have fr: "first_record (CHR 0x0A) (full s) = replicate 70000 (CHR ''a'')"
    by (simp add: f first_record_def)
  have nf: "\<not> fits_in (maxTokenSize s) (CHR 0x0A) (first_record (CHR 0x0A) (full s))"
    unfolding fr by (simp add: fits_in_def s_def NewScanner_def MaxScanTokenSize_def)
  have ok: "buffer_ok s" unfolding s_def by (rule NewScanner_ok)
  have e: "err s = None" by (simp add: s_def NewScanner_def)
  have ne: "full s \<noteq> []" by (simp add: f)
  note tl = Tokens_too_long[OF ok e ne nf]
  from tl have a: "Tokens (CHR 0x0A) s = []" by simp
  obtain sc where sc: "Scan (CHR 0x0A) s = (None, sc)" and esc: "err sc = Some ErrTooLong"
    using tl by (cases "Scan (CHR 0x0A) s") auto
  have st: "scanner lr = s" "RS (awkVars lr) = CHR 0x0A" "results (captured lr) 0 = []"
      "allocated (captured (NewReader src ())) = 0"
    by (simp_all add: lr_def s_def MapString_def MapErr_def NewReader_def new_result_def defaultRS_def)
  have "Read [] lr = (([], 0, Some ErrTooLong), lr\<lparr>scanner := sc\<rparr>)"
    using sc esc st by (simp add: Read_def Err_def nullBytes_def copy_nothing)
  from discard_stops[OF this] have "Discard lr = (Some ErrTooLong, lr\<lparr>scanner := sc\<rparr>)"
    by (simp add: Discard_code)
  then have b: "fst (ReadAllSliceString (NewReader src ())) = ([], Some ErrTooLong)"
    using st by (simp add: ReadAllSliceString_def Let_def lr_def[symmetric])
  have c: "count_list (replicate n (CHR ''a'')) (CHR 0x0A) = 0" for n
    by (induction n) simp_all
  have d: "last (replicate 70000 (CHR ''a'')) = CHR ''a''" by simp
  from a b inp c[of 70000] d show ?thesis unfolding s_def src_def by simp
qed

section \<open>The count that Read returns\<close>

text \<open>
  C2.  \<^verbatim>\<open>Read\<close> copies at most \<open>len(p)\<close> bytes, but the count it returns is the length of
  the record, not the number of bytes copied: with a buffer of two bytes and the record
  \<^verbatim>\<open>"hello\n"\<close> it writes \<^verbatim>\<open>"he"\<close> and returns 6.
\<close>

theorem Read_returns_record_length:
  "fst (Read ''xx'' (NewReader \<lparr>chunks = [''hello\<newline>''], final = EOF\<rparr> u)) = (''he'', 6, None)
   \<and> copy_n ''xx'' ''hello\<newline>'' = 2"
  by code_simp

section \<open>Hard errors in the filter chain\<close>

text \<open>
  C1, as the code has it.  When the filters before \<open>f\<close> all return a nil error and \<open>f\<close>
  returns an error other than \<^verbatim>\<open>ErrOmitLine\<close>, the pull stops at \<open>f\<close>: the filters after
  \<open>f\<close> are not applied (the Reader is left in the environment \<open>f\<close> returned), and \<^verbatim>\<open>Read\<close>
  returns that error together with the bytes \<open>f\<close> returned, which need not be empty.
\<close>

theorem hard_error_stops_chain:
  assumes tok: "Scan (RS (awkVars lr)) (scanner lr) = (Some token, sc)"
    and chain: "filterFuncs lr = pre @ f # post"
    and pre: "passes pre token ((awkVars lr)\<lparr>NR := NR (awkVars lr) + 1\<rparr>, captured lr) = Some (line, env1)"
    and f: "f env1 line = ((out, Some e), (vars, cap))"
    and hard: "e \<noteq> ErrOmitLine"
  shows "Read p lr = ((copy p out, int (length out), Some e),
                      lr\<lparr>scanner := sc, awkVars := vars, captured := cap\<rparr>)"
proof -
  have "filter_loop (filterFuncs lr) token ((awkVars lr)\<lparr>NR := NR (awkVars lr) + 1\<rparr>, captured lr)
          = filter_loop (f # post) line env1"
    unfolding chain using pre by (rule filter_loop_after_passes)
  also have "\<dots> = ((out, Some e), (vars, cap))" using f hard by simp
  finally show ?thesis using tok by (rule Read_token[rotated])
qed

theorem hard_error_stops_chain_witness:
  "fst (Read ''xxxxxx''
         (Map (\<lambda>env line. (line @ ''!'', env))
           (MapStringErr (\<lambda>env line. ((take 2 line, Some (Other ''boom'')), env))
             (Grep (\<lambda>env line. (True, env))
               (NewReader \<lparr>chunks = [''foo\<newline>bar''], final = EOF\<rparr> ()))))) =
     (''foxxxx'', 2, Some (Other ''boom''))"
proof -
  define lr :: "unit Reader" where
    "lr = Map (\<lambda>env line. (line @ ''!'', env))
           (MapStringErr (\<lambda>env line. ((take 2 line, Some (Other ''boom'')), env))
             (Grep (\<lambda>env line. (True, env))
               (NewReader \<lparr>chunks = [''foo\<newline>bar''], final = EOF\<rparr> ())))"
  define env where "env = ((awkVars lr)\<lparr>NR := NR (awkVars lr) + 1\<rparr>, captured lr)"
  define sc where "sc = snd (Scan (RS (awkVars lr)) (scanner lr))"
  have tok: "Scan (RS (awkVars lr)) (scanner lr) = (Some ''foo\<newline>'', sc)"
    unfolding lr_def sc_def by code_simp
  have chain: "filterFuncs lr = [Grep_closure (\<lambda>env line. (True, env))] @
       MapStringErr_closure (\<lambda>env line. ((take 2 line, Some (Other ''boom'')), env)) #
       [Map_closure (\<lambda>env line. (line @ ''!'', env))]"
    by (simp add: lr_def Map_def MapStringErr_def Grep_def MapErr_def NewReader_def)
  have pre: "passes [Grep_closure (\<lambda>env line. (True, env))] ''foo\<newline>''
      ((awkVars lr)\<lparr>NR := NR (awkVars lr) + 1\<rparr>, captured lr) = Some (''foo\<newline>'', env)"
    by (simp add: Grep_closure_def env_def)
  have f: "MapStringErr_closure (\<lambda>env line. ((take 2 line, Some (Other ''boom'')), env)) env ''foo\<newline>''
      = ((''fo'', Some (Other ''boom'')), (fst env, snd env))"
    by (simp add: MapStringErr_closure_def)
  have hard: "Other ''boom'' \<noteq> ErrOmitLine" by simp
  from hard_error_stops_chain[OF tok chain pre f hard, of "''xxxxxx''"]
  have "fst (Read ''xxxxxx'' lr) = (''foxxxx'', 2, Some (Other ''boom''))"
    by (simp add: copy_def copy_n_def)
  then show ?thesis unfolding lr_def .
qed

text \<open>
  The record is not emptied on a hard error: a \<^verbatim>\<open>MapErr\<close> function that returns its
  line together with an error makes \<^verbatim>\<open>Read\<close> return the four bytes of \<^verbatim>\<open>"foo\n"\<close> and the
  error.
\<close>

theorem hard_error_keeps_bytes:
  "fst (Read ''xxxxxx'' (MapErr (\<lambda>env line. ((line, Some (Other ''boom'')), env))
          (NewReader \<lparr>chunks = [''foo\<newline>bar''], final = EOF\<rparr> ()))) =
     (''foo\<newline>xx'', 4, Some (Other ''boom''))"
  by code_simp

section \<open>Omitted records\<close>

text \<open>
  C4.  When the filters before \<open>f\<close> all return a nil error and \<open>f\<close> returns
  \<^verbatim>\<open>ErrOmitLine\<close>, the filters after \<open>f\<close> are not applied, \<^verbatim>\<open>Read\<close> returns no bytes and a
  nil error, and the drain goes on with the next record.  And a chain that contains a
  \<^verbatim>\<open>Grep\<close> whose predicate is never true collects no record, with \<^verbatim>\<open>ReadAllSlice\<close> and with
  \<^verbatim>\<open>ReadAllSliceString\<close>, on any input.
\<close>

theorem omit_skips_rest_and_continues:
  "(Scan (RS (awkVars lr)) (scanner lr) = (Some token, sc) \<and>
    filterFuncs lr = pre @ f # post \<and>
    passes pre token ((awkVars lr)\<lparr>NR := NR (awkVars lr) + 1\<rparr>, captured lr) = Some (line, env1) \<and>
    f env1 line = ((out, Some ErrOmitLine), (vars, cap))
    \<longrightarrow> Read p lr = ((p, 0, None), lr\<lparr>scanner := sc, awkVars := vars, captured := cap\<rparr>) \<and>
        discard_ReadFrom p lr =
          discard_ReadFrom p (lr\<lparr>scanner := sc, awkVars := vars, captured := cap\<rparr>))
   \<and>
   ((\<forall>g\<in>set before. keeps_results g) \<and> keeps_results (Grep_closure never) \<and>
    (\<forall>env ln. \<not> fst (never env ln)) \<and>
    filterFuncs lr' = before @ Grep_closure never # after
    \<longrightarrow> fst (fst (ReadAllSlice lr')) = [] \<and> fst (fst (ReadAllSliceString lr')) = [])"
proof (intro conjI impI)
  assume a: "Scan (RS (awkVars lr)) (scanner lr) = (Some token, sc) \<and>
    filterFuncs lr = pre @ f # post \<and>
    passes pre token ((awkVars lr)\<lparr>NR := NR (awkVars lr) + 1\<rparr>, captured lr) = Some (line, env1) \<and>
    f env1 line = ((out, Some ErrOmitLine), (vars, cap))"
  then have "filter_loop (filterFuncs lr) token ((awkVars lr)\<lparr>NR := NR (awkVars lr) + 1\<rparr>, captured lr)
          = filter_loop (f # post) line env1"
    by (simp add: filter_loop_after_passes)
  also have "\<dots> = ((nullBytes, None), (vars, cap))" using a by simp
  finally have "Read p lr = ((copy p nullBytes, int (length nullBytes), None),
      lr\<lparr>scanner := sc, awkVars := vars, captured := cap\<rparr>)"
    using a by (intro Read_token) simp_all
  then show rd: "Read p lr = ((p, 0, None), lr\<lparr>scanner := sc, awkVars := vars, captured := cap\<rparr>)"
    by (simp add: nullBytes_def copy_nothing)
  show "discard_ReadFrom p lr =
          discard_ReadFrom p (lr\<lparr>scanner := sc, awkVars := vars, captured := cap\<rparr>)"
    using rd by (rule discard_continues)
next
  assume b: "(\<forall>g\<in>set before. keeps_results g) \<and> keeps_results (Grep_closure never) \<and>
    (\<forall>env ln. \<not> fst (never env ln)) \<and>
    filterFuncs lr' = before @ Grep_closure never # after"
  then have nv: "\<not> fst (never env ln)" for env ln by blast
  have om: "snd (fst (Grep_closure never env ln)) = Some ErrOmitLine" for env ln
    using nv[of env ln] by (cases "never env ln") (simp add: Grep_closure_def)
  from b have pre: "\<forall>g\<in>set before. keeps_results g" and g: "keeps_results (Grep_closure never)"
    and chain: "filterFuncs lr' = before @ Grep_closure never # after" by simp_all
  show "fst (fst (ReadAllSlice lr')) = []"
    using collect_nothing[OF pre g om chain,
        of "Map_closure (ReadAllSlice_closure (allocated (captured lr')))"]
    by (simp add: ReadAllSlice_def Map_def Let_def split_beta)
  show "fst (fst (ReadAllSliceString lr')) = []"
    using collect_nothing[OF pre g om chain,
        of "MapString_closure (ReadAllSliceString_closure (allocated (captured lr')))"]
    by (simp add: ReadAllSliceString_def MapString_def Let_def split_beta)
qed

theorem omit_skips_rest_and_continues_witness:
  "fst (Read ''xxxx''
         (Map (\<lambda>env line. (line @ ''!'', env))
           (GrepString (\<lambda>env s. (False, env))
             (MapString (\<lambda>env line. (take 2 line, env))
               (NewReader \<lparr>chunks = [''foo\<newline>bar''], final = EOF\<rparr> ()))))) = (''xxxx'', 0, None)
   \<and> fst (fst (ReadAllSlice
         (Map (\<lambda>env line. (line @ ''!'', env))
           (GrepString (\<lambda>env s. (False, env))
             (MapString (\<lambda>env line. (take 2 line, env))
               (NewReader \<lparr>chunks = [''foo\<newline>bar''], final = EOF\<rparr> ())))))) = []"
proof -
  let ?lr = "Map (\<lambda>env line. (line @ ''!'', env))
           (GrepString (\<lambda>env s. (False, env))
             (MapString (\<lambda>env line. (take 2 line, env))
               (NewReader \<lparr>chunks = [''foo\<newline>bar''], final = EOF\<rparr> ())))"
  let ?never = "GrepString_closure (\<lambda>(env :: unit env) (s :: string). (False, env))"
  let ?env = "((awkVars ?lr)\<lparr>NR := NR (awkVars ?lr) + 1\<rparr>, captured ?lr)"
  have tok: "Scan (RS (awkVars ?lr)) (scanner ?lr) = (Some ''foo\<newline>'', snd (Scan (RS (awkVars ?lr)) (scanner ?lr)))"
    by code_simp
  have chain: "filterFuncs ?lr = [MapString_closure (\<lambda>env line. (take 2 line, env))] @
       Grep_closure ?never # [Map_closure (\<lambda>env line. (line @ ''!'', env))]"
    by (simp add: Map_def MapString_def GrepString_def Grep_def MapErr_def NewReader_def)
  have pre: "passes [MapString_closure (\<lambda>env line. (take 2 line, env))] ''foo\<newline>'' ?env = Some (''fo'', ?env)"
    by (simp add: MapString_closure_def)
  have f: "Grep_closure ?never ?env ''fo'' = ((nullBytes, Some ErrOmitLine), (fst ?env, snd ?env))"
    by (simp add: Grep_closure_def GrepString_closure_def)
  have k1: "\<forall>g\<in>set [MapString_closure (\<lambda>(env :: unit env) line. (take 2 line, env))]. keeps_results g"
    by (simp add: keeps_results_def MapString_closure_def)
  have k2: "keeps_results (Grep_closure ?never)"
    by (simp add: keeps_results_def Grep_closure_def GrepString_closure_def)
  have nv: "\<forall>env ln. \<not> fst (?never env ln)"
    by (simp add: GrepString_closure_def)
  from omit_skips_rest_and_continues[of ?lr "''foo\<newline>''" "snd (Scan (RS (awkVars ?lr)) (scanner ?lr))"
      "[MapString_closure (\<lambda>env line. (take 2 line, env))]" "Grep_closure ?never"
      "[Map_closure (\<lambda>env line. (line @ ''!'', env))]" "''fo''" ?env nullBytes "fst ?env" "snd ?env"
      "''xxxx''" "[MapString_closure (\<lambda>env line. (take 2 line, env))]" ?never ?lr
      "[Map_closure (\<lambda>env line. (line @ ''!'', env))]"]
    tok chain pre f k1 k2 nv
  show ?thesis by simp
qed

section \<open>End of stream signalled by a callback\<close>

text \<open>
  C5.  When the filters before \<open>f\<close> all return a nil error and \<open>f\<close> returns \<^verbatim>\<open>io.EOF\<close>,
  \<^verbatim>\<open>Read\<close> returns \<^verbatim>\<open>io.EOF\<close> at once, without applying the filters after \<open>f\<close>.  When that
  happens in a drain, at the pull that follows \<open>n\<close> pulls with a nil error (for any \<open>n\<close>,
  the first pull of the drain included), \<^verbatim>\<open>Discard\<close> stops there with a nil error, in the
  state that pull leaves; so do \<^verbatim>\<open>ReadAllSlice\<close> and \<^verbatim>\<open>ReadAllSliceString\<close> when it happens
  on the Reader they drain, and they return what was collected until then.  No drain
  ever reports \<^verbatim>\<open>io.EOF\<close> as its error.
\<close>

theorem EOF_from_callback_ends_stream:
  "(Scan (RS (awkVars lr)) (scanner lr) = (Some token, sc) \<and>
    filterFuncs lr = pre @ f # post \<and>
    passes pre token ((awkVars lr)\<lparr>NR := NR (awkVars lr) + 1\<rparr>, captured lr) = Some (line, env1) \<and>
    f env1 line = ((out, Some EOF), (vars, cap))
    \<longrightarrow> Read p lr = ((copy p out, int (length out), Some EOF),
                     lr\<lparr>scanner := sc, awkVars := vars, captured := cap\<rparr>))
   \<and>
   (clean n q x \<and>
    Scan (RS (awkVars (pulls n q x))) (scanner (pulls n q x)) = (Some token, sc) \<and>
    filterFuncs x = pre @ f # post \<and>
    passes pre token
      ((awkVars (pulls n q x))\<lparr>NR := NR (awkVars (pulls n q x)) + 1\<rparr>, captured (pulls n q x))
      = Some (line, env1) \<and>
    f env1 line = ((out, Some EOF), (vars, cap))
    \<longrightarrow> Discard x = (None, (pulls n q x)\<lparr>scanner := sc, awkVars := vars, captured := cap\<rparr>) \<and>
        (x = ReadAllSlice_reader lr \<longrightarrow>
           ReadAllSlice lr =
             ((results cap (allocated (captured lr)), None),
              (pulls n q x)\<lparr>scanner := sc, awkVars := vars, captured := cap\<rparr>)) \<and>
        (x = ReadAllSliceString_reader lr \<longrightarrow>
           ReadAllSliceString lr =
             ((results cap (allocated (captured lr)), None),
              (pulls n q x)\<lparr>scanner := sc, awkVars := vars, captured := cap\<rparr>)))
   \<and> fst (Discard lr) \<noteq> Some EOF
   \<and> snd (fst (ReadAllSlice lr)) \<noteq> Some EOF
   \<and> snd (fst (ReadAllSliceString lr)) \<noteq> Some EOF"
proof -
  have step: "Read b y = ((copy b out, int (length out), Some EOF),
                     y\<lparr>scanner := sc, awkVars := vars, captured := cap\<rparr>)"
    if tok: "Scan (RS (awkVars y)) (scanner y) = (Some token, sc)"
      and chain: "filterFuncs y = pre @ f # post"
      and pre: "passes pre token ((awkVars y)\<lparr>NR := NR (awkVars y) + 1\<rparr>, captured y) = Some (line, env1)"
      and f: "f env1 line = ((out, Some EOF), (vars, cap))"
    for y :: "'a Reader" and b
  proof -
    have "filter_loop (filterFuncs y) token ((awkVars y)\<lparr>NR := NR (awkVars y) + 1\<rparr>, captured y)
          = filter_loop (f # post) line env1"
      unfolding chain using pre by (rule filter_loop_after_passes)
    also have "\<dots> = ((out, Some EOF), (vars, cap))" using f by simp
    finally show ?thesis using tok by (intro Read_token) simp_all
  qed
  have A: "Read p lr = ((copy p out, int (length out), Some EOF),
                     lr\<lparr>scanner := sc, awkVars := vars, captured := cap\<rparr>)"
    if "Scan (RS (awkVars lr)) (scanner lr) = (Some token, sc) \<and>
    filterFuncs lr = pre @ f # post \<and>
    passes pre token ((awkVars lr)\<lparr>NR := NR (awkVars lr) + 1\<rparr>, captured lr) = Some (line, env1) \<and>
    f env1 line = ((out, Some EOF), (vars, cap))"
    using that by (intro step) simp_all
  have B: "Discard x = (None, (pulls n q x)\<lparr>scanner := sc, awkVars := vars, captured := cap\<rparr>) \<and>
        (x = ReadAllSlice_reader lr \<longrightarrow>
           ReadAllSlice lr =
             ((results cap (allocated (captured lr)), None),
              (pulls n q x)\<lparr>scanner := sc, awkVars := vars, captured := cap\<rparr>)) \<and>
        (x = ReadAllSliceString_reader lr \<longrightarrow>
           ReadAllSliceString lr =
             ((results cap (allocated (captured lr)), None),
              (pulls n q x)\<lparr>scanner := sc, awkVars := vars, captured := cap\<rparr>))"
    if h: "clean n q x \<and>
    Scan (RS (awkVars (pulls n q x))) (scanner (pulls n q x)) = (Some token, sc) \<and>
    filterFuncs x = pre @ f # post \<and>
    passes pre token
      ((awkVars (pulls n q x))\<lparr>NR := NR (awkVars (pulls n q x)) + 1\<rparr>, captured (pulls n q x))
      = Some (line, env1) \<and>
    f env1 line = ((out, Some EOF), (vars, cap))"
  proof -
    let ?y = "pulls n q x"
    from h have cl: "clean n q x" by simp
    have rd: "Read [] ?y = ((copy [] out, int (length out), Some EOF),
                     ?y\<lparr>scanner := sc, awkVars := vars, captured := cap\<rparr>)"
      using h by (intro step) (simp_all add: pulls_filterFuncs)
    have "Discard x = discard_ReadFrom q x"
      unfolding Discard_def by (rule discard_buffer)
    also have "\<dots> = discard_ReadFrom [] ?y" using cl by (rule discard_after_clean)
    also have "\<dots> = (None, ?y\<lparr>scanner := sc, awkVars := vars, captured := cap\<rparr>)"
      using discard_stops[OF rd] by simp
    finally have d: "Discard x = (None, ?y\<lparr>scanner := sc, awkVars := vars, captured := cap\<rparr>)" .
    show ?thesis
    proof (intro conjI impI)
      show "Discard x = (None, ?y\<lparr>scanner := sc, awkVars := vars, captured := cap\<rparr>)"
        by (rule d)
    next
      assume xe: "x = ReadAllSlice_reader lr"
      from d show "ReadAllSlice lr =
             ((results cap (allocated (captured lr)), None),
              ?y\<lparr>scanner := sc, awkVars := vars, captured := cap\<rparr>)"
        unfolding xe by (simp add: ReadAllSlice_def ReadAllSlice_reader_def Let_def)
    next
      assume xe: "x = ReadAllSliceString_reader lr"
      from d show "ReadAllSliceString lr =
             ((results cap (allocated (captured lr)), None),
              ?y\<lparr>scanner := sc, awkVars := vars, captured := cap\<rparr>)"
        unfolding xe by (simp add: ReadAllSliceString_def ReadAllSliceString_reader_def Let_def)
    qed
  qed
  have never: "fst (Discard y) \<noteq> Some EOF" for y :: "'a Reader"
    by (simp add: Discard_def discard_never_EOF)
  have C: "snd (fst (ReadAllSlice lr)) \<noteq> Some EOF"
    using never by (simp add: ReadAllSlice_def Let_def split_beta)
  have D: "snd (fst (ReadAllSliceString lr)) \<noteq> Some EOF"
    using never by (simp add: ReadAllSliceString_def Let_def split_beta)
  from A B never[of lr] C D show ?thesis by blast
qed

theorem EOF_from_callback_ends_stream_witness:
  "fst (Read ''xxxx'' (pulls 1 ''xxxx''
         (Map (\<lambda>env line. (line @ ''!'', env))
           (MapErr (\<lambda>env line. ((take 1 line, if line = ''ba'' then Some EOF else None), env))
             (MapString (\<lambda>env line. (take 2 line, env))
               (NewReader \<lparr>chunks = [''foo\<newline>bar\<newline>baz''], final = EOF\<rparr> ())))))) = (''bxxx'', 1, Some EOF)
   \<and> fst (Discard
         (Map (\<lambda>env line. (line @ ''!'', env))
           (MapErr (\<lambda>env line. ((take 1 line, if line = ''ba'' then Some EOF else None), env))
             (MapString (\<lambda>env line. (take 2 line, env))
               (NewReader \<lparr>chunks = [''foo\<newline>bar\<newline>baz''], final = EOF\<rparr> ()))))) = None
   \<and> fst (ReadAllSlice
         (Map (\<lambda>env line. (line @ ''!'', env))
           (MapErr (\<lambda>env line. ((take 1 line, if line = ''ba'' then Some EOF else None), env))
             (MapString (\<lambda>env line. (take 2 line, env))
               (NewReader \<lparr>chunks = [''foo\<newline>bar\<newline>baz''], final = EOF\<rparr> ()))))) = ([''f!''], None)"
proof -
  define g :: "unit env \<Rightarrow> string \<Rightarrow> string \<times> unit env" where "g = (\<lambda>env line. (take 2 line, env))"
  define f :: "unit filterFunc" where
    "f = (\<lambda>env line. ((take 1 line, if line = ''ba'' then Some EOF else None), env))"
  define h :: "unit env \<Rightarrow> string \<Rightarrow> string \<times> unit env" where "h = (\<lambda>env line. (line @ ''!'', env))"
  define lr where
    "lr = Map h (MapErr f (MapString g (NewReader \<lparr>chunks = [''foo\<newline>bar\<newline>baz''], final = EOF\<rparr> ())))"
  define x where "x = ReadAllSlice_reader lr"
  define y where "y = pulls 1 ''xxxx'' lr"
  define z where "z = pulls 1 ''xxxx'' x"
  define scy where "scy = snd (Scan (RS (awkVars y)) (scanner y))"
  define scz where "scz = snd (Scan (RS (awkVars z)) (scanner z))"
  define envy where "envy = ((awkVars y)\<lparr>NR := NR (awkVars y) + 1\<rparr>, captured y)"
  define envz where "envz = ((awkVars z)\<lparr>NR := NR (awkVars z) + 1\<rparr>, captured z)"
  have fl: "filterFuncs lr = [MapString_closure g] @ f # [Map_closure h]"
    by (simp add: lr_def Map_def MapString_def MapErr_def NewReader_def)
  have flx: "filterFuncs x = [MapString_closure g] @ f #
      [Map_closure h, Map_closure (ReadAllSlice_closure (allocated (captured lr)))]"
    by (simp add: x_def ReadAllSlice_reader_def Map_def MapErr_def fl)
  have fly: "filterFuncs y = [MapString_closure g] @ f # [Map_closure h]"
    unfolding y_def by (simp only: pulls_filterFuncs fl)
  have slot: "allocated (captured lr) = 0"
    by (simp add: lr_def Map_def MapString_def MapErr_def NewReader_def)
  have cly: "clean 1 ''xxxx'' lr"
    unfolding lr_def g_def f_def h_def by code_simp
  have clz: "clean 1 ''xxxx'' x"
    unfolding x_def ReadAllSlice_reader_def lr_def g_def f_def h_def by code_simp
  have toky: "Scan (RS (awkVars y)) (scanner y) = (Some ''bar\<newline>'', scy)"
    unfolding scy_def y_def lr_def g_def f_def h_def by code_simp
  have tokz: "Scan (RS (awkVars z)) (scanner z) = (Some ''bar\<newline>'', scz)"
    unfolding scz_def z_def x_def ReadAllSlice_reader_def lr_def g_def f_def h_def by code_simp
  have resz: "results (captured z) 0 = [''f!'']"
    unfolding z_def x_def ReadAllSlice_reader_def lr_def g_def f_def h_def by code_simp
  have prey: "passes [MapString_closure g] ''bar\<newline>'' envy = Some (''ba'', envy)"
    by (simp add: MapString_closure_def g_def)
  have prez: "passes [MapString_closure g] ''bar\<newline>'' envz = Some (''ba'', envz)"
    by (simp add: MapString_closure_def g_def)
  have fy: "f envy ''ba'' = ((''b'', Some EOF), (fst envy, snd envy))"
    by (simp add: f_def)
  have fz: "f envz ''ba'' = ((''b'', Some EOF), (fst envz, snd envz))"
    by (simp add: f_def)
  note i1 = EOF_from_callback_ends_stream[where lr = y and token = "''bar\<newline>''" and sc = scy
      and pre = "[MapString_closure g]" and f = f and post = "[Map_closure h]" and line = "''ba''"
      and ?env1.0 = envy and out = "''b''" and vars = "fst envy" and cap = "snd envy"
      and p = "''xxxx''" and n = 1 and q = "''xxxx''" and x = lr, THEN conjunct1]
  from mp[OF i1] toky fly prey fy
  have a: "fst (Read ''xxxx'' y) = (''bxxx'', 1, Some EOF)"
    by (simp add: envy_def copy_def copy_n_def)
  note i2 = EOF_from_callback_ends_stream[where lr = lr and token = "''bar\<newline>''" and sc = scy
      and pre = "[MapString_closure g]" and f = f and post = "[Map_closure h]" and line = "''ba''"
      and ?env1.0 = envy and out = "''b''" and vars = "fst envy" and cap = "snd envy"
      and p = "''xxxx''" and n = 1 and q = "''xxxx''" and x = lr, THEN conjunct2, THEN conjunct1]
  from mp[OF i2] cly toky fl prey fy
  have b: "fst (Discard lr) = None"
    by (simp add: envy_def y_def)
  note i3 = EOF_from_callback_ends_stream[where lr = lr and token = "''bar\<newline>''" and sc = scz
      and pre = "[MapString_closure g]" and f = f
      and post = "[Map_closure h, Map_closure (ReadAllSlice_closure (allocated (captured lr)))]"
      and line = "''ba''"
      and ?env1.0 = envz and out = "''b''" and vars = "fst envz" and cap = "snd envz"
      and p = "''xxxx''" and n = 1 and q = "''xxxx''" and x = x, THEN conjunct2, THEN conjunct1]
  from mp[OF i3] clz tokz flx prez fz
  have "x = ReadAllSlice_reader lr \<longrightarrow> fst (ReadAllSlice lr) = (results (snd envz) (allocated (captured lr)), None)"
    by (simp add: envz_def z_def)
  then have c: "fst (ReadAllSlice lr) = ([''f!''], None)"
    using resz by (simp add: x_def slot envz_def)
  from a b c show ?thesis unfolding y_def lr_def g_def f_def h_def by simp
qed

section \<open>The collect helpers leave their filter in the chain\<close>

lemma collector_fed:
  assumes tok: "Scan (RS (awkVars lr)) (scanner lr) = (Some token, sc)"
    and chain: "filterFuncs lr = pre @ c # post"
    and pre: "passes pre token ((awkVars lr)\<lparr>NR := NR (awkVars lr) + 1\<rparr>, captured lr) = Some (line, (vars, cap))"
    and c: "c = Map_closure (ReadAllSlice_closure slot) \<or> c = MapString_closure (ReadAllSliceString_closure slot)"
  shows "Read p lr =
     (case filter_loop post [] (vars, cap\<lparr>results := (results cap)(slot := results cap slot @ [line])\<rparr>) of
        ((l, e), (v, cp)) \<Rightarrow>
          ((copy p l, int (length l), e), lr\<lparr>scanner := sc, awkVars := v, captured := cp\<rparr>))"
proof -
  let ?env = "(vars, cap\<lparr>results := (results cap)(slot := results cap slot @ [line])\<rparr>)"
  have cc: "c (vars, cap) line = (([], None), ?env)"
    using c by (auto simp: Map_closure_def MapString_closure_def ReadAllSlice_closure_def
        ReadAllSliceString_closure_def nullBytes_def)
  have "filter_loop (filterFuncs lr) token ((awkVars lr)\<lparr>NR := NR (awkVars lr) + 1\<rparr>, captured lr)
          = filter_loop (c # post) line (vars, cap)"
    unfolding chain using pre by (rule filter_loop_after_passes)
  also have "\<dots> = filter_loop post [] ?env" using cc by simp
  finally have fl: "filter_loop (filterFuncs lr) token ((awkVars lr)\<lparr>NR := NR (awkVars lr) + 1\<rparr>, captured lr)
          = filter_loop post [] ?env" .
  obtain l e v cp where r: "filter_loop post [] ?env = ((l, e), (v, cp))"
    by (cases "filter_loop post [] ?env") auto
  from Read_token[OF tok fl[unfolded r], of p] r show ?thesis by simp
qed

text \<open>
  C10.  \<^verbatim>\<open>ReadAllSlice\<close> and \<^verbatim>\<open>ReadAllSliceString\<close> return a Reader whose filter list is the
  old one with the collecting closure appended, one element longer; no \<^verbatim>\<open>Read\<close> and no
  drain changes the filter list, so the closure stays.  On such a Reader every later
  pull whose record passes the filters before the collector appends it to the helper's
  \<^verbatim>\<open>result\<close> slot and goes on with an empty line.
\<close>

theorem collectors_stay_in_chain:
  "filterFuncs (snd (ReadAllSlice lr)) =
     filterFuncs lr @ [Map_closure (ReadAllSlice_closure (allocated (captured lr)))]
   \<and> filterFuncs (snd (ReadAllSliceString lr)) =
     filterFuncs lr @ [MapString_closure (ReadAllSliceString_closure (allocated (captured lr)))]
   \<and> length (filterFuncs (snd (ReadAllSlice lr))) = length (filterFuncs lr) + 1
   \<and> length (filterFuncs (snd (ReadAllSliceString lr))) = length (filterFuncs lr) + 1
   \<and> filterFuncs (snd (Read p lr)) = filterFuncs lr
   \<and> filterFuncs (snd (Discard lr)) = filterFuncs lr
   \<and> (Scan (RS (awkVars lr)) (scanner lr) = (Some token, sc) \<and>
      (filterFuncs lr = pre @ Map_closure (ReadAllSlice_closure slot) # post \<or>
       filterFuncs lr = pre @ MapString_closure (ReadAllSliceString_closure slot) # post) \<and>
      passes pre token ((awkVars lr)\<lparr>NR := NR (awkVars lr) + 1\<rparr>, captured lr)
        = Some (line, (vars, cap))
      \<longrightarrow> Read p lr =
           (case filter_loop post []
                   (vars, cap\<lparr>results := (results cap)(slot := results cap slot @ [line])\<rparr>) of
              ((l, e), (v, cp)) \<Rightarrow>
                ((copy p l, int (length l), e),
                 lr\<lparr>scanner := sc, awkVars := v, captured := cp\<rparr>)))"
proof -
  have A: "filterFuncs (snd (ReadAllSlice lr)) =
     filterFuncs lr @ [Map_closure (ReadAllSlice_closure (allocated (captured lr)))]"
    by (simp add: ReadAllSlice_def Let_def split_beta Discard_def discard_filterFuncs Map_def MapErr_def)
  have B: "filterFuncs (snd (ReadAllSliceString lr)) =
     filterFuncs lr @ [MapString_closure (ReadAllSliceString_closure (allocated (captured lr)))]"
    by (simp add: ReadAllSliceString_def Let_def split_beta Discard_def discard_filterFuncs
        MapString_def MapErr_def)
  have C: "filterFuncs (snd (Discard lr)) = filterFuncs lr"
    by (simp add: Discard_def discard_filterFuncs)
  have D: "Read p lr =
           (case filter_loop post []
                   (vars, cap\<lparr>results := (results cap)(slot := results cap slot @ [line])\<rparr>) of
              ((l, e), (v, cp)) \<Rightarrow>
                ((copy p l, int (length l), e),
                 lr\<lparr>scanner := sc, awkVars := v, captured := cp\<rparr>))"
    if h: "Scan (RS (awkVars lr)) (scanner lr) = (Some token, sc) \<and>
      (filterFuncs lr = pre @ Map_closure (ReadAllSlice_closure slot) # post \<or>
       filterFuncs lr = pre @ MapString_closure (ReadAllSliceString_closure slot) # post) \<and>
      passes pre token ((awkVars lr)\<lparr>NR := NR (awkVars lr) + 1\<rparr>, captured lr)
        = Some (line, (vars, cap))"
  proof -
    from h obtain c where ch: "filterFuncs lr = pre @ c # post"
      and cc: "c = Map_closure (ReadAllSlice_closure slot) \<or> c = MapString_closure (ReadAllSliceString_closure slot)"
      by blast
    from h have tok: "Scan (RS (awkVars lr)) (scanner lr) = (Some token, sc)"
      and pre: "passes pre token ((awkVars lr)\<lparr>NR := NR (awkVars lr) + 1\<rparr>, captured lr)
        = Some (line, (vars, cap))" by blast+
    show ?thesis by (rule collector_fed[OF tok ch pre cc])
  qed
  from A B C D Read_filterFuncs[of p lr] show ?thesis by simp
qed

theorem collectors_stay_in_chain_witness:
  "fst (ReadAllSlice
         (MapErr (\<lambda>env line. ((line, if line = ''bar\<newline>'' then Some (Other ''boom'') else None), env))
            (NewReader \<lparr>chunks = [''foo\<newline>bar\<newline>baz''], final = EOF\<rparr> ())))
     = ([''foo\<newline>''], Some (Other ''boom''))
   \<and> length (filterFuncs (snd (ReadAllSlice
         (MapErr (\<lambda>env line. ((line, if line = ''bar\<newline>'' then Some (Other ''boom'') else None), env))
            (NewReader \<lparr>chunks = [''foo\<newline>bar\<newline>baz''], final = EOF\<rparr> ()))))) = 2
   \<and> results (captured (snd (Read ''xx'' (snd (ReadAllSlice
         (MapErr (\<lambda>env line. ((line, if line = ''bar\<newline>'' then Some (Other ''boom'') else None), env))
            (NewReader \<lparr>chunks = [''foo\<newline>bar\<newline>baz''], final = EOF\<rparr> ()))))))) 0
     = [''foo\<newline>'', ''baz'']"
proof -
  define f :: "unit filterFunc" where
    "f = (\<lambda>env line. ((line, if line = ''bar\<newline>'' then Some (Other ''boom'') else None), env))"
  define lr0 :: "unit Reader" where
    "lr0 = MapErr f (NewReader \<lparr>chunks = [''foo\<newline>bar\<newline>baz''], final = EOF\<rparr> ())"
  define lr where "lr = snd (ReadAllSlice lr0)"
  define sc where "sc = snd (Scan (RS (awkVars lr)) (scanner lr))"
  define env where "env = ((awkVars lr)\<lparr>NR := NR (awkVars lr) + 1\<rparr>, captured lr)"
  have r1: "fst (ReadAllSlice lr0) = ([''foo\<newline>''], Some (Other ''boom''))"
    unfolding lr0_def f_def by code_simp
  have slot0: "allocated (captured lr0) = 0"
    by (simp add: lr0_def MapErr_def NewReader_def)
  have fl0: "filterFuncs lr0 = [f]"
    by (simp add: lr0_def MapErr_def NewReader_def)
  have res: "results (captured lr) 0 = [''foo\<newline>'']"
    using r1 slot0 by (simp add: lr_def ReadAllSlice_def Let_def split_beta)
  have chain: "filterFuncs lr = [f] @ Map_closure (ReadAllSlice_closure 0) # []"
    using collectors_stay_in_chain[of lr0] slot0 fl0 by (simp add: lr_def)
  have len: "length (filterFuncs lr) = 2"
    using collectors_stay_in_chain[of lr0] fl0 by (simp add: lr_def)
  have tok: "Scan (RS (awkVars lr)) (scanner lr) = (Some ''baz'', sc)"
    unfolding lr_def lr0_def f_def sc_def by code_simp
  have pre: "passes [f] ''baz'' ((awkVars lr)\<lparr>NR := NR (awkVars lr) + 1\<rparr>, captured lr)
      = Some (''baz'', (fst env, snd env))"
    by (simp add: f_def env_def)
  from collectors_stay_in_chain[of lr _ "''baz''" sc "[f]" 0 "[]" "''baz''" "fst env" "snd env"]
    tok chain pre
  have "Read ''xx'' lr = ((''xx'', 0, None), lr\<lparr>scanner := sc, awkVars := fst env,
      captured := (snd env)\<lparr>results := (results (snd env))(0 := results (snd env) 0 @ [''baz''])\<rparr>\<rparr>)"
    by (simp add: copy_nothing)
  then have "results (captured (snd (Read ''xx'' lr))) 0 = [''foo\<newline>'', ''baz'']"
    using res by (simp add: env_def)
  with r1 len show ?thesis unfolding lr_def lr0_def f_def by simp
qed

section \<open>Record numbers\<close>

lemma keeps_NR_D:
  "keeps_NR f \<Longrightarrow> f env line = (x, env') \<Longrightarrow> NR (fst env') = NR (fst env)"
  unfolding keeps_NR_def by (metis snd_conv)

lemma filter_loop_keeps_NR:
  "\<forall>f\<in>set fs. keeps_NR f \<Longrightarrow> NR (fst (snd (filter_loop fs token env))) = NR (fst env)"
proof (induction fs arbitrary: token env)
  case Nil
  then show ?case by simp
next
  case (Cons f fs)
  obtain l e env' where fe: "f env token = ((l, e), env')" by (cases "f env token") auto
  from Cons.prems have "keeps_NR f" by simp
  from keeps_NR_D[OF this fe] have kf: "NR (fst env') = NR (fst env)" .
  show ?case
  proof (cases e)
    case None
    with fe Cons kf show ?thesis by simp
  next
    case (Some er)
    with fe kf show ?thesis by simp
  qed
qed

lemma Read_NR:
  assumes "\<forall>f\<in>set (filterFuncs lr). keeps_NR f"
  shows "NR (awkVars (snd (Read p lr))) =
     NR (awkVars lr) + (case fst (Scan (RS (awkVars lr)) (scanner lr)) of None \<Rightarrow> 0 | Some token \<Rightarrow> 1)"
proof (cases "Scan (RS (awkVars lr)) (scanner lr)")
  case (Pair tok sc)
  show ?thesis
  proof (cases tok)
    case None
    with Pair show ?thesis by (simp add: Read_def)
  next
    case (Some t)
    let ?env = "((awkVars lr)\<lparr>NR := NR (awkVars lr) + 1\<rparr>, captured lr)"
    obtain l e v c where fl: "filter_loop (filterFuncs lr) t ?env = ((l, e), (v, c))"
      by (cases "filter_loop (filterFuncs lr) t ?env") auto
    from filter_loop_keeps_NR[OF assms, of t ?env] fl have "NR v = NR (awkVars lr) + 1" by simp
    with Pair Some fl show ?thesis by (simp add: Read_def)
  qed
qed

lemma pulls_NR:
  "\<forall>f\<in>set (filterFuncs lr). keeps_NR f \<Longrightarrow>
   NR (awkVars (pulls n p lr)) = NR (awkVars lr) + int (tokenized n p lr)"
proof (induction n arbitrary: p lr)
  case 0
  then show ?case by simp
next
  case (Suc n)
  from Suc.prems have "\<forall>f\<in>set (filterFuncs (snd (Read p lr))). keeps_NR f"
    by (simp add: Read_filterFuncs)
  from Suc.IH[OF this] Read_NR[OF Suc.prems, of p] show ?case
    by (simp split: option.splits)
qed

lemma tokenized_mono: "tokenized n p lr \<le> tokenized (n + k) p lr"
proof (induction n arbitrary: p lr)
  case 0
  then show ?case by simp
next
  case (Suc n)
  from Suc[of "fst (fst (Read p lr))" "snd (Read p lr)"] show ?case by simp
qed

lemma AWKMode_hands_over_NR:
  "AWKMode_closure cb (vars, cap) line0 =
   AWKMode_closure (\<lambda>env l fs v. cb env l fs (v\<lparr>NR := NR vars\<rparr>)) (vars, cap) line0"
  by (simp add: AWKMode_closure_def Let_def)

lemma passes_keeps_NR:
  "\<forall>f\<in>set fs. keeps_NR f \<Longrightarrow> passes fs token env = Some (line, env') \<Longrightarrow>
   NR (fst env') = NR (fst env)"
proof (induction fs arbitrary: token env)
  case Nil
  then show ?case by simp
next
  case (Cons f fs)
  obtain l e env1 where fe: "f env token = ((l, e), env1)" by (cases "f env token") auto
  from Cons.prems(1) have "keeps_NR f" by simp
  from keeps_NR_D[OF this fe] have kf: "NR (fst env1) = NR (fst env)" .
  from Cons.prems(2) fe have e: "e = None" and p: "passes fs l env1 = Some (line, env')"
    by (auto split: option.splits)
  from Cons.IH[OF _ p] Cons.prems(1) kf show ?case by simp
qed

text \<open>
  C7.  On a Reader that starts with \<open>NR = 0\<close>, as \<^verbatim>\<open>NewReader\<close> makes it, \<open>NR\<close> after any
  number of pulls is the number of records tokenized so far.  The pull that tokenizes
  the next record runs the whole filter chain with \<open>NR\<close> one higher, and leaves it so
  whether the chain keeps, omits or fails the record; \<open>NR\<close> never decreases.  When that
  record passes the filters before an \<^verbatim>\<open>AWKMode\<close> closure, the closure hands its callback
  this record number: overwriting the \<open>NR\<close> of the callback's argument with it changes
  nothing.
\<close>

theorem NR_is_record_number:
  assumes frames: "\<forall>f\<in>set (filterFuncs lr). keeps_NR f"
    and fresh: "NR (awkVars lr) = 0"
  shows "NR (awkVars (pulls n p lr)) = int (tokenized n p lr)
   \<and> (Scan (RS (awkVars (pulls n p lr))) (scanner (pulls n p lr)) = (Some token, sc) \<longrightarrow>
        Read q (pulls n p lr) =
          (case filter_loop (filterFuncs lr) token
                  ((awkVars (pulls n p lr))\<lparr>NR := int (tokenized n p lr) + 1\<rparr>,
                   captured (pulls n p lr)) of
             ((l, e), (v, c)) \<Rightarrow>
               ((copy q l, int (length l), e),
                (pulls n p lr)\<lparr>scanner := sc, awkVars := v, captured := c\<rparr>))
        \<and> NR (awkVars (snd (Read q (pulls n p lr)))) = int (tokenized n p lr) + 1)
   \<and> (filterFuncs lr = pre @ MapStringErr_closure (AWKMode_closure cb) # post \<and>
      passes pre token
        ((awkVars (pulls n p lr))\<lparr>NR := int (tokenized n p lr) + 1\<rparr>, captured (pulls n p lr))
        = Some (line, (vars, cap)) \<longrightarrow>
        MapStringErr_closure (AWKMode_closure cb) (vars, cap) line =
        AWKMode_closure (\<lambda>env l fs v. cb env l fs (v\<lparr>NR := int (tokenized n p lr) + 1\<rparr>))
          (vars, cap) line)
   \<and> NR (awkVars (pulls n p lr)) \<le> NR (awkVars (pulls (n + k) p lr))"
proof -
  let ?x = "pulls n p lr"
  let ?N = "int (tokenized n p lr) + 1"
  have nr: "NR (awkVars (pulls m p lr)) = int (tokenized m p lr)" for m
    using pulls_NR[OF frames, of m p] fresh by simp
  have fx: "\<forall>f\<in>set (filterFuncs ?x). keeps_NR f"
    using frames by (simp add: pulls_filterFuncs)
  have rd: "Read q ?x =
          (case filter_loop (filterFuncs lr) token
                  ((awkVars ?x)\<lparr>NR := ?N\<rparr>, captured ?x) of
             ((l, e), (v, c)) \<Rightarrow>
               ((copy q l, int (length l), e), ?x\<lparr>scanner := sc, awkVars := v, captured := c\<rparr>))
        \<and> NR (awkVars (snd (Read q ?x))) = ?N"
    if tok: "Scan (RS (awkVars ?x)) (scanner ?x) = (Some token, sc)"
  proof -
    have "Read q ?x =
          (case filter_loop (filterFuncs lr) token
                  ((awkVars ?x)\<lparr>NR := ?N\<rparr>, captured ?x) of
             ((l, e), (v, c)) \<Rightarrow>
               ((copy q l, int (length l), e), ?x\<lparr>scanner := sc, awkVars := v, captured := c\<rparr>))"
      using tok nr[of n] by (simp add: Read_def pulls_filterFuncs)
    moreover from Read_NR[OF fx, of q] tok nr[of n]
    have "NR (awkVars (snd (Read q ?x))) = ?N" by simp
    ultimately show ?thesis by simp
  qed
  have awk: "MapStringErr_closure (AWKMode_closure cb) (vars, cap) line =
        AWKMode_closure (\<lambda>env l fs v. cb env l fs (v\<lparr>NR := ?N\<rparr>)) (vars, cap) line"
    if h: "filterFuncs lr = pre @ MapStringErr_closure (AWKMode_closure cb) # post \<and>
      passes pre token ((awkVars ?x)\<lparr>NR := ?N\<rparr>, captured ?x) = Some (line, (vars, cap))"
  proof -
    from h frames have "\<forall>f\<in>set pre. keeps_NR f" by simp
    moreover from h have "passes pre token ((awkVars ?x)\<lparr>NR := ?N\<rparr>, captured ?x)
        = Some (line, (vars, cap))" by simp
    ultimately have "NR (fst (vars, cap)) = NR (fst ((awkVars ?x)\<lparr>NR := ?N\<rparr>, captured ?x))"
      by (rule passes_keeps_NR)
    then have "NR vars = ?N" by simp
    with AWKMode_hands_over_NR[of cb vars cap line] show ?thesis
      by (simp add: MapStringErr_closure_def split_beta)
  qed
  have mono: "NR (awkVars (pulls n p lr)) \<le> NR (awkVars (pulls (n + k) p lr))"
    using tokenized_mono[of n p lr k] by (simp add: nr)
  from nr[of n] rd awk mono show ?thesis by blast
qed

theorem NR_is_record_number_witness:
  "NR (awkVars (pulls 2 ''xxxx''
      (AWKMode (\<lambda>(vars, cap) l fs v. ((l, None), (vars, cap\<lparr>user := user cap @ [NR v]\<rparr>)))
        (GrepString (\<lambda>env s. (s \<noteq> ''b\<newline>'', env))
          (NewReader \<lparr>chunks = [''a\<newline>b\<newline>c''], final = EOF\<rparr> []))))) = 2
   \<and> user (captured (pulls 3 ''xxxx''
      (AWKMode (\<lambda>(vars, cap) l fs v. ((l, None), (vars, cap\<lparr>user := user cap @ [NR v]\<rparr>)))
        (GrepString (\<lambda>env s. (s \<noteq> ''b\<newline>'', env))
          (NewReader \<lparr>chunks = [''a\<newline>b\<newline>c''], final = EOF\<rparr> []))))) = [1, 3]"
proof -
  define cb :: "(int list) awkFn" where
    "cb = (\<lambda>(vars, cap) l fs v. ((l, None), (vars, cap\<lparr>user := user cap @ [NR v]\<rparr>)))"
  define g :: "(int list) env \<Rightarrow> string \<Rightarrow> bool \<times> (int list) env" where
    "g = (\<lambda>env s. (s \<noteq> ''b\<newline>'', env))"
  define lr where
    "lr = AWKMode cb (GrepString g (NewReader \<lparr>chunks = [''a\<newline>b\<newline>c''], final = EOF\<rparr> []))"
  have fl: "filterFuncs lr = [Grep_closure (GrepString_closure g), MapStringErr_closure (AWKMode_closure cb)]"
    by (simp add: lr_def AWKMode_def MapStringErr_def GrepString_def Grep_def MapErr_def NewReader_def)
  have k1: "keeps_NR (Grep_closure (GrepString_closure g))"
    by (rule Grep_closures_keep_NR) (simp add: g_def)
  have k2: "keeps_NR (MapStringErr_closure (AWKMode_closure cb))"
    by (rule MapStringErr_closure_keeps_NR, rule AWKMode_closure_keeps_NR) (simp add: cb_def split_beta)
  have frames: "\<forall>f\<in>set (filterFuncs lr). keeps_NR f"
    using k1 k2 by (simp add: fl)
  have fresh: "NR (awkVars lr) = 0"
    by (simp add: lr_def AWKMode_def MapStringErr_def GrepString_def Grep_def MapErr_def NewReader_def)
  have t2: "tokenized 2 ''xxxx'' lr = 2"
    unfolding lr_def cb_def g_def by code_simp
  from NR_is_record_number[OF frames fresh, of 2 "''xxxx''", THEN conjunct1] t2
  have a: "NR (awkVars (pulls 2 ''xxxx'' lr)) = 2" by simp
  have b: "user (captured (pulls 3 ''xxxx'' lr)) = [1, 3]"
    unfolding lr_def cb_def g_def by code_simp
  from a b show ?thesis unfolding lr_def cb_def g_def by simp
qed

section \<open>Filters see the separator\<close>

lemma first_record_last: "rs \<in> set xs \<Longrightarrow> first_record rs xs \<noteq> [] \<and> last (first_record rs xs) = rs"
  by (simp add: first_record_def)

lemma Scan_token:
  assumes "Scan rs s = (Some token, sc)"
  shows "token = first_record rs (full s)"
  using Scan_sound[OF assms] by simp

lemma Read_appended:
  assumes tok: "Scan (RS (awkVars lr)) (scanner lr) = (Some token, sc)"
    and pre: "passes (filterFuncs lr) token ((awkVars lr)\<lparr>NR := NR (awkVars lr) + 1\<rparr>, captured lr)
        = Some (line, env)"
    and c: "filter_loop [c] line env = ((l, e), (v, cp))"
  shows "Read p (MapErr c lr) =
     ((copy p l, int (length l), e), (MapErr c lr)\<lparr>scanner := sc, awkVars := v, captured := cp\<rparr>)"
proof -
  have "filter_loop (filterFuncs (MapErr c lr)) token
          ((awkVars (MapErr c lr))\<lparr>NR := NR (awkVars (MapErr c lr)) + 1\<rparr>, captured (MapErr c lr))
        = filter_loop [c] line env"
    using filter_loop_after_passes[OF pre, of "[c]"] by (simp add: MapErr_def)
  with c have "filter_loop (filterFuncs (MapErr c lr)) token
          ((awkVars (MapErr c lr))\<lparr>NR := NR (awkVars (MapErr c lr)) + 1\<rparr>, captured (MapErr c lr))
        = ((l, e), (v, cp))" by simp
  moreover have "Scan (RS (awkVars (MapErr c lr))) (scanner (MapErr c lr)) = (Some token, sc)"
    using tok by (simp add: MapErr_def)
  ultimately show ?thesis by (rule Read_token[rotated])
qed

text \<open>
  C8.  A token is the first record of the input that is left, with its separator when
  the input has one, and \<^verbatim>\<open>Read\<close> starts the filter loop with that token.  Each of the
  builders \<^verbatim>\<open>Map\<close>, \<^verbatim>\<open>MapString\<close>, \<^verbatim>\<open>Grep\<close>, \<^verbatim>\<open>GrepString\<close> and \<^verbatim>\<open>GrepByRegexp\<close> appends its
  closure to the filter list and changes nothing else; the closure applies the callback
  (or the regular expression) to the very line it gets, and a \<^verbatim>\<open>Grep\<close> closure passes that
  line on.  So on the Reader a builder returns, a pull whose record \<open>token\<close> reaches the
  new filter as \<open>line\<close> (which is \<open>token\<close> itself when the filter is the first) applies the
  callback or the regular expression to \<open>line\<close>, separator included.  \<^verbatim>\<open>GrepString\<close> with
  \<^verbatim>\<open>s == "foo"\<close> drops the record \<^verbatim>\<open>"foo\n"\<close> and with \<^verbatim>\<open>s == "foo\n"\<close> keeps it;
  \<^verbatim>\<open>GrepByRegexp\<close> with \<^verbatim>\<open>^foo$\<close>, which matches the text \<^verbatim>\<open>"foo"\<close> only, drops it; \<^verbatim>\<open>Map\<close> gets
  it with the separator; and only an \<^verbatim>\<open>AWKMode\<close> callback sees \<^verbatim>\<open>"foo"\<close>.
\<close>

theorem filters_get_separator:
  "(Scan rs s = (Some token, sc) \<longrightarrow>
      token = first_record rs (full s) \<and>
      (rs \<in> set (full s) \<longrightarrow> token \<noteq> [] \<and> last token = rs))
   \<and> (Scan (RS (awkVars lr)) (scanner lr) = (Some token, sc) \<longrightarrow>
        Read p lr =
          (case filter_loop (filterFuncs lr) token
                  ((awkVars lr)\<lparr>NR := NR (awkVars lr) + 1\<rparr>, captured lr) of
             ((l, e), (v, c)) \<Rightarrow>
               ((copy p l, int (length l), e), lr\<lparr>scanner := sc, awkVars := v, captured := c\<rparr>)))
   \<and> Map fn lr = lr\<lparr>filterFuncs := filterFuncs lr @ [Map_closure fn]\<rparr>
   \<and> MapString fn lr = lr\<lparr>filterFuncs := filterFuncs lr @ [MapString_closure fn]\<rparr>
   \<and> Grep pr lr = lr\<lparr>filterFuncs := filterFuncs lr @ [Grep_closure pr]\<rparr>
   \<and> GrepString pr lr = lr\<lparr>filterFuncs := filterFuncs lr @ [Grep_closure (GrepString_closure pr)]\<rparr>
   \<and> GrepByRegexp re lr = lr\<lparr>filterFuncs := filterFuncs lr @ [Grep_closure (GrepByRegexp_closure re)]\<rparr>
   \<and> filter_loop (Map_closure fn # rest) line env =
       filter_loop rest (fst (fn env line)) (snd (fn env line))
   \<and> filter_loop (MapString_closure fn # rest) line env =
       filter_loop rest (fst (fn env line)) (snd (fn env line))
   \<and> filter_loop (Grep_closure pr # rest) line env =
       (if fst (pr env line) then filter_loop rest line (snd (pr env line))
        else ((nullBytes, None), snd (pr env line)))
   \<and> filter_loop (Grep_closure (GrepString_closure pr) # rest) line env =
       (if fst (pr env line) then filter_loop rest line (snd (pr env line))
        else ((nullBytes, None), snd (pr env line)))
   \<and> filter_loop (Grep_closure (GrepByRegexp_closure re) # rest) line env =
       (if Match re line then filter_loop rest line env else ((nullBytes, None), env))
   \<and> (Scan (RS (awkVars lr)) (scanner lr) = (Some token, sc) \<and>
      passes (filterFuncs lr) token ((awkVars lr)\<lparr>NR := NR (awkVars lr) + 1\<rparr>, captured lr)
        = Some (line, env) \<longrightarrow>
        Read p (Map fn lr) =
          ((copy p (fst (fn env line)), int (length (fst (fn env line))), None),
           (Map fn lr)\<lparr>scanner := sc, awkVars := fst (snd (fn env line)),
                        captured := snd (snd (fn env line))\<rparr>)
        \<and> Read p (MapString fn lr) =
          ((copy p (fst (fn env line)), int (length (fst (fn env line))), None),
           (MapString fn lr)\<lparr>scanner := sc, awkVars := fst (snd (fn env line)),
                        captured := snd (snd (fn env line))\<rparr>)
        \<and> Read p (Grep pr lr) =
          ((if fst (pr env line) then (copy p line, int (length line), None) else (p, 0, None)),
           (Grep pr lr)\<lparr>scanner := sc, awkVars := fst (snd (pr env line)),
                        captured := snd (snd (pr env line))\<rparr>)
        \<and> Read p (GrepString pr lr) =
          ((if fst (pr env line) then (copy p line, int (length line), None) else (p, 0, None)),
           (GrepString pr lr)\<lparr>scanner := sc, awkVars := fst (snd (pr env line)),
                        captured := snd (snd (pr env line))\<rparr>)
        \<and> Read p (GrepByRegexp re lr) =
          ((if Match re line then (copy p line, int (length line), None) else (p, 0, None)),
           (GrepByRegexp re lr)\<lparr>scanner := sc, awkVars := fst env, captured := snd env\<rparr>))
   \<and> fst (ReadAllSliceString (GrepString (\<lambda>env s. (s = ''foo'', env))
          (NewReader \<lparr>chunks = [''foo\<newline>''], final = EOF\<rparr> u))) = ([], None)
   \<and> fst (ReadAllSliceString (GrepString (\<lambda>env s. (s = ''foo\<newline>'', env))
          (NewReader \<lparr>chunks = [''foo\<newline>''], final = EOF\<rparr> u))) = ([''foo\<newline>''], None)
   \<and> fst (ReadAllSliceString
          (GrepByRegexp \<lparr>expr = ''^foo$'', FindAllStringIndex = (\<lambda>s. if s = ''foo'' then [(0, 3)] else [])\<rparr>
            (NewReader \<lparr>chunks = [''foo\<newline>''], final = EOF\<rparr> u))) = ([], None)
   \<and> fst (ReadAllSliceString (Map (\<lambda>env line. (''<'' @ line @ ''>'', env))
          (NewReader \<lparr>chunks = [''foo\<newline>''], final = EOF\<rparr> u))) = ([''<foo\<newline>>''], None)
   \<and> fst (ReadAllSliceString
          (AWKMode (\<lambda>env s fields vars. ((s, if s = ''foo'' then None else Some ErrOmitLine), env))
            (NewReader \<lparr>chunks = [''foo\<newline>''], final = EOF\<rparr> u))) = ([''foo\<newline>''], None)"
proof -
  have 1: "token = first_record rs (full s) \<and>
      (rs \<in> set (full s) \<longrightarrow> token \<noteq> [] \<and> last token = rs)"
    if "Scan rs s = (Some token, sc)"
    using Scan_token[OF that] first_record_last[of rs "full s"] by simp
  have 2: "Read p lr =
          (case filter_loop (filterFuncs lr) token
                  ((awkVars lr)\<lparr>NR := NR (awkVars lr) + 1\<rparr>, captured lr) of
             ((l, e), (v, c)) \<Rightarrow>
               ((copy p l, int (length l), e), lr\<lparr>scanner := sc, awkVars := v, captured := c\<rparr>))"
    if "Scan (RS (awkVars lr)) (scanner lr) = (Some token, sc)"
    using that by (simp add: Read_def)
  have b1: "Map fn lr = lr\<lparr>filterFuncs := filterFuncs lr @ [Map_closure fn]\<rparr>"
    by (simp add: Map_def MapErr_def)
  have b2: "MapString fn lr = lr\<lparr>filterFuncs := filterFuncs lr @ [MapString_closure fn]\<rparr>"
    by (simp add: MapString_def MapErr_def)
  have b3: "Grep pr lr = lr\<lparr>filterFuncs := filterFuncs lr @ [Grep_closure pr]\<rparr>" for pr
    by (simp add: Grep_def MapErr_def)
  have b4: "GrepString pr lr = lr\<lparr>filterFuncs := filterFuncs lr @ [Grep_closure (GrepString_closure pr)]\<rparr>"
    by (simp add: GrepString_def Grep_def MapErr_def)
  have b5: "GrepByRegexp re lr = lr\<lparr>filterFuncs := filterFuncs lr @ [Grep_closure (GrepByRegexp_closure re)]\<rparr>"
    by (simp add: GrepByRegexp_def Grep_def MapErr_def)
  have 3: "filter_loop (Map_closure fn # rest) line env =
       filter_loop rest (fst (fn env line)) (snd (fn env line))" for rest
    by (simp add: Map_closure_def split_beta)
  have 4: "filter_loop (MapString_closure fn # rest) line env =
       filter_loop rest (fst (fn env line)) (snd (fn env line))" for rest
    by (simp add: MapString_closure_def split_beta)
  have 5: "filter_loop (Grep_closure pr # rest) line env =
       (if fst (pr env line) then filter_loop rest line (snd (pr env line))
        else ((nullBytes, None), snd (pr env line)))" for pr rest
    by (simp add: Grep_closure_def split_beta)
  have 6: "filter_loop (Grep_closure (GrepByRegexp_closure re) # rest) line env =
       (if Match re line then filter_loop rest line env else ((nullBytes, None), env))" for rest
    using 5[of "GrepByRegexp_closure re" rest]
    by (simp add: GrepByRegexp_closure_def del: filter_loop.simps)
  have 7: "filter_loop (Grep_closure (GrepString_closure pr) # rest) line env =
       (if fst (pr env line) then filter_loop rest line (snd (pr env line))
        else ((nullBytes, None), snd (pr env line)))" for rest
    using 5[of "GrepString_closure pr" rest]
    by (simp add: GrepString_closure_def del: filter_loop.simps)
  have e2e: "Read p (Map fn lr) =
          ((copy p (fst (fn env line)), int (length (fst (fn env line))), None),
           (Map fn lr)\<lparr>scanner := sc, awkVars := fst (snd (fn env line)),
                        captured := snd (snd (fn env line))\<rparr>)
        \<and> Read p (MapString fn lr) =
          ((copy p (fst (fn env line)), int (length (fst (fn env line))), None),
           (MapString fn lr)\<lparr>scanner := sc, awkVars := fst (snd (fn env line)),
                        captured := snd (snd (fn env line))\<rparr>)
        \<and> Read p (Grep pr lr) =
          ((if fst (pr env line) then (copy p line, int (length line), None) else (p, 0, None)),
           (Grep pr lr)\<lparr>scanner := sc, awkVars := fst (snd (pr env line)),
                        captured := snd (snd (pr env line))\<rparr>)
        \<and> Read p (GrepString pr lr) =
          ((if fst (pr env line) then (copy p line, int (length line), None) else (p, 0, None)),
           (GrepString pr lr)\<lparr>scanner := sc, awkVars := fst (snd (pr env line)),
                        captured := snd (snd (pr env line))\<rparr>)
        \<and> Read p (GrepByRegexp re lr) =
          ((if Match re line then (copy p line, int (length line), None) else (p, 0, None)),
           (GrepByRegexp re lr)\<lparr>scanner := sc, awkVars := fst env, captured := snd env\<rparr>)"
    if h: "Scan (RS (awkVars lr)) (scanner lr) = (Some token, sc) \<and>
      passes (filterFuncs lr) token ((awkVars lr)\<lparr>NR := NR (awkVars lr) + 1\<rparr>, captured lr)
        = Some (line, env)"
  proof -
    from h have tok: "Scan (RS (awkVars lr)) (scanner lr) = (Some token, sc)"
      and pre: "passes (filterFuncs lr) token ((awkVars lr)\<lparr>NR := NR (awkVars lr) + 1\<rparr>, captured lr)
        = Some (line, env)" by simp_all
    note ra = Read_appended[OF tok pre]
    have m: "filter_loop [Map_closure fn] line env =
        ((fst (fn env line), None), (fst (snd (fn env line)), snd (snd (fn env line))))"
      using 3[of "[]"] by simp
    have ms: "filter_loop [MapString_closure fn] line env =
        ((fst (fn env line), None), (fst (snd (fn env line)), snd (snd (fn env line))))"
      using 4[of "[]"] by simp
    have g: "filter_loop [Grep_closure pr] line env =
        ((if fst (pr env line) then line else [], None),
         (fst (snd (pr env line)), snd (snd (pr env line))))" for pr
      using 5[of pr "[]"] by (simp add: nullBytes_def)
    have gm: "fst (GrepByRegexp_closure re env line) = Match re line"
        "snd (GrepByRegexp_closure re env line) = env"
      by (simp_all add: GrepByRegexp_closure_def)
    have gs: "GrepString_closure pr env line = pr env line"
      by (simp add: GrepString_closure_def)
    have A: "Read p (Map fn lr) =
          ((copy p (fst (fn env line)), int (length (fst (fn env line))), None),
           (Map fn lr)\<lparr>scanner := sc, awkVars := fst (snd (fn env line)),
                        captured := snd (snd (fn env line))\<rparr>)"
      unfolding Map_def by (rule ra[OF m])
    have B: "Read p (MapString fn lr) =
          ((copy p (fst (fn env line)), int (length (fst (fn env line))), None),
           (MapString fn lr)\<lparr>scanner := sc, awkVars := fst (snd (fn env line)),
                        captured := snd (snd (fn env line))\<rparr>)"
      unfolding MapString_def by (rule ra[OF ms])
    have C: "Read p (Grep pr lr) =
          ((if fst (pr env line) then (copy p line, int (length line), None) else (p, 0, None)),
           (Grep pr lr)\<lparr>scanner := sc, awkVars := fst (snd (pr env line)),
                        captured := snd (snd (pr env line))\<rparr>)" for pr
      unfolding Grep_def using ra[OF g[of pr], of p] by (simp add: copy_nothing)
    have D: "Read p (GrepString pr lr) =
          ((if fst (pr env line) then (copy p line, int (length line), None) else (p, 0, None)),
           (GrepString pr lr)\<lparr>scanner := sc, awkVars := fst (snd (pr env line)),
                        captured := snd (snd (pr env line))\<rparr>)"
      unfolding GrepString_def using C[of "GrepString_closure pr"] by (simp only: gs)
    have E: "Read p (GrepByRegexp re lr) =
          ((if Match re line then (copy p line, int (length line), None) else (p, 0, None)),
           (GrepByRegexp re lr)\<lparr>scanner := sc, awkVars := fst env, captured := snd env\<rparr>)"
      unfolding GrepByRegexp_def using C[of "GrepByRegexp_closure re"] by (simp only: gm)
    from A B C[of pr] D E show ?thesis by simp
  qed
  have 8: "fst (ReadAllSliceString (GrepString (\<lambda>env s. (s = ''foo'', env))
          (NewReader \<lparr>chunks = [''foo\<newline>''], final = EOF\<rparr> u))) = ([], None)"
    by code_simp
  have 9: "fst (ReadAllSliceString (GrepString (\<lambda>env s. (s = ''foo\<newline>'', env))
          (NewReader \<lparr>chunks = [''foo\<newline>''], final = EOF\<rparr> u))) = ([''foo\<newline>''], None)"
    by code_simp
  have 10: "fst (ReadAllSliceString
          (GrepByRegexp \<lparr>expr = ''^foo$'', FindAllStringIndex = (\<lambda>s. if s = ''foo'' then [(0, 3)] else [])\<rparr>
            (NewReader \<lparr>chunks = [''foo\<newline>''], final = EOF\<rparr> u))) = ([], None)"
    by code_simp
  have 11: "fst (ReadAllSliceString (Map (\<lambda>env line. (''<'' @ line @ ''>'', env))
          (NewReader \<lparr>chunks = [''foo\<newline>''], final = EOF\<rparr> u))) = ([''<foo\<newline>>''], None)"
    by code_simp
  have 12: "fst (ReadAllSliceString
          (AWKMode (\<lambda>env s fields vars. ((s, if s = ''foo'' then None else Some ErrOmitLine), env))
            (NewReader \<lparr>chunks = [''foo\<newline>''], final = EOF\<rparr> u))) = ([''foo\<newline>''], None)"
    by code_simp
  have I: "(Scan rs s = (Some token, sc) \<longrightarrow>
      token = first_record rs (full s) \<and>
      (rs \<in> set (full s) \<longrightarrow> token \<noteq> [] \<and> last token = rs))"
    using 1 by blast
  have II: "(Scan (RS (awkVars lr)) (scanner lr) = (Some token, sc) \<longrightarrow>
        Read p lr =
          (case filter_loop (filterFuncs lr) token
                  ((awkVars lr)\<lparr>NR := NR (awkVars lr) + 1\<rparr>, captured lr) of
             ((l, e), (v, c)) \<Rightarrow>
               ((copy p l, int (length l), e), lr\<lparr>scanner := sc, awkVars := v, captured := c\<rparr>)))"
    using 2 by blast
  note builders = b1 b2 b3[of pr] b4 b5
  note closures = 3[of rest] 4[of rest] 5[of pr rest] 7[of rest] 6[of rest]
  note examples = 8 9 10 11 12
  show ?thesis
    apply (intro conjI)
    apply (rule I)
    apply (rule II)
    apply (rule builders)+
    apply (rule closures)+
    apply (rule impI, rule e2e, assumption)
    apply (rule examples)+
    done
qed

theorem filters_get_separator_witness:
  "fst (Scan (CHR 0x0A) (NewScanner \<lparr>chunks = [''fo'', ''o\<newline>bar''], final = EOF\<rparr>)) = Some ''foo\<newline>''
   \<and> last ''foo\<newline>'' = CHR 0x0A
   \<and> fst (Read ''xxxxxx'' (NewReader \<lparr>chunks = [''fo'', ''o\<newline>bar''], final = EOF\<rparr> ()))
       = (''foo\<newline>xx'', 4, None)
   \<and> fst (Read ''xxxxxx'' (MapString (\<lambda>env s. (s @ ''!'', env))
            (NewReader \<lparr>chunks = [''fo'', ''o\<newline>bar''], final = EOF\<rparr> ()))) = (''foo\<newline>!x'', 5, None)
   \<and> fst (Read ''xxxxxx''
            (GrepByRegexp \<lparr>expr = ''^foo$'', FindAllStringIndex = (\<lambda>s. if s = ''foo'' then [(0, 3)] else [])\<rparr>
              (NewReader \<lparr>chunks = [''fo'', ''o\<newline>bar''], final = EOF\<rparr> ()))) = (''xxxxxx'', 0, None)"
proof -
  define s where "s = NewScanner \<lparr>chunks = [''fo'', ''o\<newline>bar''], final = EOF\<rparr>"
  define fn :: "unit env \<Rightarrow> string \<Rightarrow> string \<times> unit env" where "fn = (\<lambda>env s. (s @ ''!'', env))"
  define re where
    "re = \<lparr>expr = ''^foo$'', FindAllStringIndex = (\<lambda>s. if s = ''foo'' then [(0::nat, 3::nat)] else [])\<rparr>"
  define lr :: "unit Reader" where "lr = NewReader \<lparr>chunks = [''fo'', ''o\<newline>bar''], final = EOF\<rparr> ()"
  define sc where "sc = snd (Scan (CHR 0x0A) s)"
  define env where "env = ((awkVars lr)\<lparr>NR := NR (awkVars lr) + 1\<rparr>, captured lr)"
  have tok: "Scan (CHR 0x0A) s = (Some ''foo\<newline>'', sc)"
    unfolding s_def sc_def by code_simp
  have mem: "CHR 0x0A \<in> set (full s)"
    by (simp add: s_def full_def NewScanner_def)
  have rs: "RS (awkVars lr) = CHR 0x0A" and scn: "scanner lr = s" and fl: "filterFuncs lr = []"
    by (simp_all add: lr_def s_def NewReader_def defaultRS_def)
  have tok': "Scan (RS (awkVars lr)) (scanner lr) = (Some ''foo\<newline>'', sc)"
    using tok rs scn by simp
  have pre: "passes (filterFuncs lr) ''foo\<newline>'' ((awkVars lr)\<lparr>NR := NR (awkVars lr) + 1\<rparr>, captured lr)
      = Some (''foo\<newline>'', env)"
    by (simp add: fl env_def)
  note inst = filters_get_separator[where rs = "CHR 0x0A" and s = s and token = "''foo\<newline>''"
      and sc = sc and lr = lr and p = "''xxxxxx''" and fn = fn and re = re and line = "''foo\<newline>''"
      and env = env and u = "()"]
  from mp[OF inst[THEN conjunct1] tok] mem
  have a: "last ''foo\<newline>'' = CHR 0x0A" by blast
  from mp[OF inst[THEN conjunct2, THEN conjunct1] tok']
  have b: "fst (Read ''xxxxxx'' lr) = (''foo\<newline>xx'', 4, None)"
    by (simp add: fl copy_def copy_n_def)
  note e2e = mp[OF inst[THEN conjunct2, THEN conjunct2, THEN conjunct2, THEN conjunct2,
        THEN conjunct2, THEN conjunct2, THEN conjunct2, THEN conjunct2, THEN conjunct2,
        THEN conjunct2, THEN conjunct2, THEN conjunct2, THEN conjunct1] conjI[OF tok' pre]]
  from e2e[THEN conjunct2, THEN conjunct1]
  have c: "fst (Read ''xxxxxx'' (MapString fn lr)) = (''foo\<newline>!x'', 5, None)"
    by (simp add: fn_def copy_def copy_n_def)
  have nm: "\<not> Match re ''foo\<newline>''" by (simp add: Match_def re_def)
  from e2e[THEN conjunct2, THEN conjunct2, THEN conjunct2, THEN conjunct2] nm
  have d: "fst (Read ''xxxxxx'' (GrepByRegexp re lr)) = (''xxxxxx'', 0, None)"
    by simp
  from tok a b c d show ?thesis unfolding lr_def fn_def s_def re_def by simp
qed

section \<open>Field count of the AWK adapter\<close>

lemma string_of_byte_ascii: "of_char b < (128::nat) \<Longrightarrow> string_of_byte b = [b]"
  by (simp add: string_of_byte_def)

lemma HasSuffix_append: "HasSuffix (content @ sfx) sfx"
  by (simp add: HasSuffix_def)

lemma TrimSuffix_append: "TrimSuffix (content @ sfx) sfx = content"
  by (simp add: TrimSuffix_def HasSuffix_def)

lemma TrimSuffix_cases:
  "(if HasSuffix line0 sfx then TrimSuffix line0 sfx else line0) = TrimSuffix line0 sfx"
  by (simp add: TrimSuffix_def)

lemma Split_empty: "expr re \<noteq> [] \<Longrightarrow> Split re [] (- 1) = [[]]"
  by (simp add: Split_def)

lemma AWKMode_closure_eq:
  "AWKMode_closure cb (vars, cap) line0 =
     AWKMode_result (HasSuffix line0 (string_of_byte (RS vars)))
       (cb (vars\<lparr>NF := int (length (Split (FS vars) (TrimSuffix line0 (string_of_byte (RS vars))) (- 1)))\<rparr>, cap)
           (TrimSuffix line0 (string_of_byte (RS vars)))
           (Split (FS vars) (TrimSuffix line0 (string_of_byte (RS vars))) (- 1))
           (vars\<lparr>NF := int (length (Split (FS vars) (TrimSuffix line0 (string_of_byte (RS vars))) (- 1)))\<rparr>))"
  by (simp add: AWKMode_closure_def Let_def TrimSuffix_cases)

lemma HasSuffix_byte: "HasSuffix line [c] = (line \<noteq> [] \<and> last line = c)"
  by (cases line rule: rev_cases) (auto simp: HasSuffix_def)

lemma TrimSuffix_byte: "TrimSuffix line [c] = stripped c line"
  by (cases line rule: rev_cases) (auto simp: TrimSuffix_def HasSuffix_def stripped_def)

lemma Split_loop_empty_matches:
  "\<forall>m\<in>set ms. m = (0, 0) \<Longrightarrow> Split_loop [] (- 1) ms (0, 0, []) = (0, 0, [])"
  by (induction ms) simp_all

lemma Split_empty_pattern:
  "expr re = [] \<Longrightarrow> \<forall>m\<in>set (FindAllStringIndex re []). m = (0, 0) \<Longrightarrow> Split re [] (- 1) = []"
  by (simp add: Split_def Split_loop_empty_matches)

text \<open>
  C9, as the code has it, for a separator byte below 0x80 (for which \<^verbatim>\<open>string(RS)\<close> is that
  byte).  The closure of \<^verbatim>\<open>AWKMode\<close> calls the callback with the separator-stripped
  content of the record, the fields \<^verbatim>\<open>FS.Split(line, -1)\<close> of that content, and \<open>NF\<close>
  already set to their number, in the Reader's \<^verbatim>\<open>awkVars\<close> and in the copy the callback
  gets.  When the stripped content is empty, as it is for the record that is the
  separator byte alone, and the pattern of \<open>FS\<close> has a non-empty source text, as the
  default \<^verbatim>\<open>\s+\<close> of a new Reader has, the fields are \<^verbatim>\<open>[""]\<close> and \<open>NF\<close> is 1; so they
  are for the record that is the separator byte alone.
\<close>

theorem AWK_NF_counts_fields:
  "(of_char (RS vars) < (128::nat) \<longrightarrow>
      AWKMode_closure cb (vars, cap) line0 =
        AWKMode_result (line0 \<noteq> [] \<and> last line0 = RS vars)
          (cb (vars\<lparr>NF := int (length (Split (FS vars) (stripped (RS vars) line0) (- 1)))\<rparr>, cap)
              (stripped (RS vars) line0)
              (Split (FS vars) (stripped (RS vars) line0) (- 1))
              (vars\<lparr>NF := int (length (Split (FS vars) (stripped (RS vars) line0) (- 1)))\<rparr>)))
   \<and> (of_char (RS vars) < (128::nat) \<and> expr (FS vars) \<noteq> [] \<and> stripped (RS vars) line0 = []
      \<longrightarrow> AWKMode_closure cb (vars, cap) line0 =
            AWKMode_result (line0 \<noteq> [] \<and> last line0 = RS vars)
              (cb (vars\<lparr>NF := 1\<rparr>, cap) [] [[]] (vars\<lparr>NF := 1\<rparr>)))
   \<and> stripped (RS vars) [RS vars] = []
   \<and> (of_char (RS vars) < (128::nat) \<and> expr (FS vars) \<noteq> []
      \<longrightarrow> AWKMode_closure cb (vars, cap) [RS vars] =
            AWKMode_result True (cb (vars\<lparr>NF := 1\<rparr>, cap) [] [[]] (vars\<lparr>NF := 1\<rparr>)))
   \<and> expr defaultFS \<noteq> []
   \<and> FS (awkVars (NewReader reader u)) = defaultFS"
proof -
  have 1: "AWKMode_closure cb (vars, cap) line0 =
        AWKMode_result (line0 \<noteq> [] \<and> last line0 = RS vars)
          (cb (vars\<lparr>NF := int (length (Split (FS vars) (stripped (RS vars) line0) (- 1)))\<rparr>, cap)
              (stripped (RS vars) line0)
              (Split (FS vars) (stripped (RS vars) line0) (- 1))
              (vars\<lparr>NF := int (length (Split (FS vars) (stripped (RS vars) line0) (- 1)))\<rparr>))"
    if "of_char (RS vars) < (128::nat)"
    using AWKMode_closure_eq[of cb vars cap line0]
    by (simp only: string_of_byte_ascii[OF that] HasSuffix_byte TrimSuffix_byte)
  have 2: "AWKMode_closure cb (vars, cap) line0 =
            AWKMode_result (line0 \<noteq> [] \<and> last line0 = RS vars)
              (cb (vars\<lparr>NF := 1\<rparr>, cap) [] [[]] (vars\<lparr>NF := 1\<rparr>))"
    if "of_char (RS vars) < (128::nat) \<and> expr (FS vars) \<noteq> [] \<and> stripped (RS vars) line0 = []"
    using that 1 by (simp add: Split_empty)
  have 3: "stripped (RS vars) [RS vars] = []"
    by (simp add: stripped_def)
  have 4: "expr defaultFS \<noteq> []" by (simp add: defaultFS_def)
  have 5: "FS (awkVars (NewReader reader u)) = defaultFS" by (simp add: NewReader_def)
  have 6: "AWKMode_closure cb (vars, cap) [RS vars] =
            AWKMode_result True (cb (vars\<lparr>NF := 1\<rparr>, cap) [] [[]] (vars\<lparr>NF := 1\<rparr>))"
    if h: "of_char (RS vars) < (128::nat) \<and> expr (FS vars) \<noteq> []"
  proof -
    from h have a: "of_char (RS vars) < (128::nat)" and e: "expr (FS vars) \<noteq> []" by simp_all
    have "AWKMode_closure cb (vars, cap) [RS vars] =
        AWKMode_result (HasSuffix [RS vars] [RS vars])
          (cb (vars\<lparr>NF := int (length (Split (FS vars) (stripped (RS vars) [RS vars]) (- 1)))\<rparr>, cap)
              (stripped (RS vars) [RS vars])
              (Split (FS vars) (stripped (RS vars) [RS vars]) (- 1))
              (vars\<lparr>NF := int (length (Split (FS vars) (stripped (RS vars) [RS vars]) (- 1)))\<rparr>))"
      using AWKMode_closure_eq[of cb vars cap "[RS vars]"]
      by (simp only: string_of_byte_ascii[OF a] TrimSuffix_byte)
    then show ?thesis by (simp add: 3 Split_empty[OF e] HasSuffix_def)
  qed
  from 1 2 3 4 5 6 show ?thesis by blast
qed

theorem AWK_NF_counts_fields_witness:
  "NF (awkVars (snd (Read ''xxxx''
      (AWKMode (\<lambda>env l fs v. ((replicate (nat (NF v)) (CHR ''f''), None), env))
        (NewReader \<lparr>chunks = [''\<newline>''], final = EOF\<rparr> ()))))) = 1
   \<and> fst (Read ''xxxx''
      (AWKMode (\<lambda>env l fs v. ((replicate (nat (NF v)) (CHR ''f''), None), env))
        (NewReader \<lparr>chunks = [''\<newline>''], final = EOF\<rparr> ()))) = (''f\<newline>xx'', 2, None)
   \<and> fst (AWKMode_closure (\<lambda>env l fs v. ((l @ ''/'' @ concat fs, None), env))
        (awkVars (NewReader \<lparr>chunks = [], final = EOF\<rparr> ()),
         captured (NewReader \<lparr>chunks = [], final = EOF\<rparr> ())) ''a b\<newline>'') = (''a b/ab\<newline>'', None)"
proof -
  define cb :: "unit awkFn" where
    "cb = (\<lambda>env l fs v. ((replicate (nat (NF v)) (CHR ''f''), None), env))"
  define cb2 :: "unit awkFn" where
    "cb2 = (\<lambda>env l fs v. ((l @ ''/'' @ concat fs, None), env))"
  define lr where "lr = AWKMode cb (NewReader \<lparr>chunks = [''\<newline>''], final = EOF\<rparr> ())"
  define vars where "vars = (awkVars lr)\<lparr>NR := NR (awkVars lr) + 1\<rparr>"
  define vars0 where "vars0 = awkVars (NewReader \<lparr>chunks = [], final = EOF\<rparr> ())"
  define cap0 where "cap0 = captured (NewReader \<lparr>chunks = [], final = EOF\<rparr> ())"
  define sc where "sc = snd (Scan (RS (awkVars lr)) (scanner lr))"
  have tok: "Scan (RS (awkVars lr)) (scanner lr) = (Some ''\<newline>'', sc)"
    unfolding lr_def sc_def cb_def by code_simp
  have fl: "filterFuncs lr = [MapStringErr_closure (AWKMode_closure cb)]"
    by (simp add: lr_def AWKMode_def MapStringErr_def MapErr_def NewReader_def)
  have rs: "RS vars = CHR 0x0A" and fs: "FS vars = defaultFS"
    by (simp_all add: vars_def lr_def AWKMode_def MapStringErr_def MapErr_def NewReader_def defaultRS_def)
  have rs0: "RS vars0 = CHR 0x0A" and fs0: "FS vars0 = defaultFS"
    by (simp_all add: vars0_def NewReader_def defaultRS_def)
  note inst = AWK_NF_counts_fields[of vars cb "captured lr" "''\<newline>''"
      "\<lparr>chunks = [], final = EOF\<rparr>" "()"]
  from inst have h: "of_char (RS vars) < (128::nat) \<and> expr (FS vars) \<noteq> [] \<and>
      stripped (RS vars) ''\<newline>'' = []"
    by (simp add: rs fs)
  from mp[OF inst[THEN conjunct2, THEN conjunct1] h]
  have cl: "AWKMode_closure cb (vars, captured lr) ''\<newline>'' =
      ((''f\<newline>'', None), (vars\<lparr>NF := 1\<rparr>, captured lr))"
    by (simp add: cb_def AWKMode_result_def rs string_of_byte_def HasSuffix_def)
  from h have h': "of_char (RS vars) < (128::nat) \<and> expr (FS vars) \<noteq> []" by simp
  from mp[OF inst[THEN conjunct2, THEN conjunct2, THEN conjunct2, THEN conjunct1] h']
  have cl': "AWKMode_closure cb (vars, captured lr) [RS vars] =
      ((''f\<newline>'', None), (vars\<lparr>NF := 1\<rparr>, captured lr))"
    by (simp add: cb_def AWKMode_result_def rs string_of_byte_def HasSuffix_def)
  have "Read ''xxxx'' lr = ((copy ''xxxx'' ''f\<newline>'', int (length ''f\<newline>''), None),
      lr\<lparr>scanner := sc, awkVars := vars\<lparr>NF := 1\<rparr>, captured := captured lr\<rparr>)"
    by (rule Read_token[OF tok]) (simp add: fl MapStringErr_closure_def cl[unfolded vars_def] vars_def)
  then have a: "NF (awkVars (snd (Read ''xxxx'' lr))) = 1 \<and> fst (Read ''xxxx'' lr) = (''f\<newline>xx'', 2, None)"
    by (simp add: copy_def copy_n_def)
  have ascii: "of_char (RS vars0) < (128::nat)" by (simp add: rs0)
  have st: "stripped (CHR 0x0A) ''a b\<newline>'' = ''a b''" by (simp add: stripped_def)
  have sp: "Split defaultFS ''a b'' (- 1) = [''a'', ''b'']" by code_simp
  from mp[OF AWK_NF_counts_fields[of vars0 cb2 cap0 "''a b\<newline>''" "\<lparr>chunks = [], final = EOF\<rparr>" "()",
        THEN conjunct1] ascii]
  have b: "fst (AWKMode_closure cb2 (vars0, cap0) ''a b\<newline>'') = (''a b/ab\<newline>'', None)"
    by (simp add: rs0 fs0 st sp cb2_def AWKMode_result_def string_of_byte_def HasSuffix_def)
  from a b show ?thesis unfolding lr_def cb_def cb2_def vars0_def cap0_def by simp
qed

text \<open>
  With the empty pattern as field separator (\<^verbatim>\<open>SetFS(regexp.MustCompile(""))\<close>, which
  matches the empty string at every offset), \<^verbatim>\<open>Split\<close> of the empty line returns no string
  at all (lemma \<open>Split_empty_pattern\<close>): for the record \<^verbatim>\<open>"\n"\<close> the callback gets no field
  and \<open>NF\<close> is 0.
\<close>

theorem AWK_empty_pattern_NF_zero:
  "NF (awkVars (snd (Read ''xxxx''
      (AWKMode (\<lambda>env l fs v. ((replicate (length fs) (CHR ''f''), None), env))
        (SetFS \<lparr>expr = [], FindAllStringIndex = (\<lambda>s. map (\<lambda>i. (i, i)) [0..<Suc (length s)])\<rparr>
          (NewReader \<lparr>chunks = [''\<newline>''], final = EOF\<rparr> ())))))) = 0
   \<and> fst (Read ''xxxx''
      (AWKMode (\<lambda>env l fs v. ((replicate (length fs) (CHR ''f''), None), env))
        (SetFS \<lparr>expr = [], FindAllStringIndex = (\<lambda>s. map (\<lambda>i. (i, i)) [0..<Suc (length s)])\<rparr>
          (NewReader \<lparr>chunks = [''\<newline>''], final = EOF\<rparr> ())))) = (''\<newline>xxx'', 1, None)"
  by code_simp

section \<open>The AWK adapter restores the separator\<close>

lemma Scan_terminated_token:
  assumes "Scan rs s = (Some token, sc)" and "rs \<in> set (full s)"
  shows "\<exists>content. token = content @ [rs] \<and> rs \<notin> set content"
proof -
  have t: "token = first_record rs (full s)"
    using Scan_sound[OF assms(1)] by simp
  have "rs \<notin> set (takeWhile (\<lambda>x. x \<noteq> rs) (full s))"
    by (auto dest: set_takeWhileD)
  with t assms(2) show ?thesis by (auto simp: first_record_def)
qed

text \<open>
  C6, as the code has it, for a separator byte below 0x80 (for which \<^verbatim>\<open>string(RS)\<close> is that
  byte).  When the record ends in the separator, the callback returns a nil error and
  leaves \<open>RS\<close> alone, and its replacement does not end in the separator, the closure of
  \<^verbatim>\<open>AWKMode\<close> returns the replacement with the separator appended.  When the record is some
  content that does not itself end in the separator, followed by the separator, the
  callback that returns its line unchanged gives back the record.  Every terminated
  record of the Tokenizer is of that form: it holds the separator once, at its end.
\<close>

theorem AWK_reappends_separator:
  "(of_char (RS vars) < (128::nat) \<and>
    cb (vars\<lparr>NF := int (length (Split (FS vars) content (- 1)))\<rparr>, cap) content
       (Split (FS vars) content (- 1))
       (vars\<lparr>NF := int (length (Split (FS vars) content (- 1)))\<rparr>)
      = ((result, None), (vars2, cap2)) \<and>
    RS vars2 = RS vars \<and> \<not> HasSuffix result [RS vars]
    \<longrightarrow> AWKMode_closure cb (vars, cap) (content @ [RS vars]) =
          ((result @ [RS vars], None), (vars2, cap2)))
   \<and> (of_char (RS vars) < (128::nat) \<and> \<not> HasSuffix content [RS vars]
      \<longrightarrow> fst (AWKMode_closure (\<lambda>env l fs v. ((l, None), env)) (vars, cap) (content @ [RS vars]))
            = (content @ [RS vars], None))
   \<and> (Scan rs s = (Some token, sc) \<and> rs \<in> set (full s)
      \<longrightarrow> (\<exists>c. token = c @ [rs] \<and> rs \<notin> set c \<and> \<not> HasSuffix c [rs]))"
proof -
  have 1: "AWKMode_closure cb (vars, cap) (content @ [RS vars]) =
          ((result @ [RS vars], None), (vars2, cap2))"
    if h: "of_char (RS vars) < (128::nat) \<and>
    cb (vars\<lparr>NF := int (length (Split (FS vars) content (- 1)))\<rparr>, cap) content
       (Split (FS vars) content (- 1))
       (vars\<lparr>NF := int (length (Split (FS vars) content (- 1)))\<rparr>)
      = ((result, None), (vars2, cap2)) \<and>
    RS vars2 = RS vars \<and> \<not> HasSuffix result [RS vars]"
  proof -
    from h have sep: "string_of_byte (RS vars) = [RS vars]" by (simp add: string_of_byte_ascii)
    from h show ?thesis
      by (simp add: AWKMode_closure_eq sep HasSuffix_append TrimSuffix_append AWKMode_result_def)
  qed
  have 2: "fst (AWKMode_closure (\<lambda>env l fs v. ((l, None), env)) (vars, cap) (content @ [RS vars]))
            = (content @ [RS vars], None)"
    if h: "of_char (RS vars) < (128::nat) \<and> \<not> HasSuffix content [RS vars]"
  proof -
    from h have sep: "string_of_byte (RS vars) = [RS vars]" by (simp add: string_of_byte_ascii)
    from h show ?thesis
      by (simp add: AWKMode_closure_eq sep HasSuffix_append TrimSuffix_append AWKMode_result_def)
  qed
  have 3: "\<exists>c. token = c @ [rs] \<and> rs \<notin> set c \<and> \<not> HasSuffix c [rs]"
    if h: "Scan rs s = (Some token, sc) \<and> rs \<in> set (full s)"
  proof -
    from h Scan_terminated_token[of rs s token sc]
    obtain c where c: "token = c @ [rs]" "rs \<notin> set c" by blast
    have "\<not> HasSuffix c [rs]"
    proof
      assume "HasSuffix c [rs]"
      then have "c \<noteq> []" and "drop (length c - 1) c = [rs]" by (auto simp: HasSuffix_def)
      then have "rs \<in> set (drop (length c - 1) c)" by simp
      then have "rs \<in> set c" by (rule in_set_dropD)
      with c(2) show False by simp
    qed
    with c show ?thesis by blast
  qed
  from 1 2 3 show ?thesis by blast
qed

theorem AWK_reappends_separator_witness:
  "fst (Read ''xxxxxx''
      (AWKMode (\<lambda>env l fs v. ((concat fs, None), env))
        (NewReader \<lparr>chunks = [''a b\<newline>c''], final = EOF\<rparr> ()))) = (''ab\<newline>xxx'', 3, None)
   \<and> fst (Read ''xxxxxx''
      (AWKMode (\<lambda>env l fs v. ((l, None), env))
        (NewReader \<lparr>chunks = [''a b\<newline>c''], final = EOF\<rparr> ()))) = (''a b\<newline>xx'', 4, None)"
proof -
  define cb :: "unit awkFn" where "cb = (\<lambda>env l fs v. ((concat fs, None), env))"
  define idcb :: "unit awkFn" where "idcb = (\<lambda>env l fs v. ((l, None), env))"
  define src where "src = \<lparr>chunks = [''a b\<newline>c''], final = EOF\<rparr>"
  define lr where "lr = AWKMode cb (NewReader src ())"
  define lr' where "lr' = AWKMode idcb (NewReader src ())"
  define s where "s = NewScanner src"
  define vars where "vars = (awkVars lr)\<lparr>NR := NR (awkVars lr) + 1\<rparr>"
  define sc where "sc = snd (Scan (CHR 0x0A) s)"
  have tok: "Scan (CHR 0x0A) s = (Some ''a b\<newline>'', sc)"
    unfolding s_def sc_def src_def by code_simp
  have fl: "filterFuncs lr = [MapStringErr_closure (AWKMode_closure cb)]"
    and fl': "filterFuncs lr' = [MapStringErr_closure (AWKMode_closure idcb)]"
    and scn: "scanner lr = s" "scanner lr' = s"
    and cap: "captured lr' = captured lr"
    and av: "awkVars lr' = awkVars lr"
    by (simp_all add: lr_def lr'_def s_def AWKMode_def MapStringErr_def MapErr_def NewReader_def)
  have rs: "RS vars = CHR 0x0A" "RS (awkVars lr) = CHR 0x0A" and fs: "FS vars = defaultFS"
    by (simp_all add: vars_def lr_def AWKMode_def MapStringErr_def MapErr_def NewReader_def defaultRS_def)
  have ascii: "of_char (RS vars) < (128::nat)" by (simp add: rs)
  have mem: "CHR 0x0A \<in> set (full s)" by (simp add: s_def src_def full_def NewScanner_def)
  have sp: "Split defaultFS ''a b'' (- 1) = [''a'', ''b'']" by code_simp
  note inst = AWK_reappends_separator[of vars cb "''a b''" "captured lr" "''ab''"
       "vars\<lparr>NF := 2\<rparr>" "captured lr" "CHR 0x0A" s "''a b\<newline>''" sc]
  have c1: "AWKMode_closure cb (vars, captured lr) ''a b\<newline>'' =
      ((''ab\<newline>'', None), (vars\<lparr>NF := 2\<rparr>, captured lr))"
    using inst[THEN conjunct1] ascii by (simp add: rs fs sp cb_def HasSuffix_def)
  have c2: "fst (AWKMode_closure idcb (vars, captured lr) ''a b\<newline>'') = (''a b\<newline>'', None)"
    using inst[THEN conjunct2, THEN conjunct1] ascii by (simp add: rs idcb_def HasSuffix_def)
  from inst[THEN conjunct2, THEN conjunct2] tok mem
  have c3: "\<exists>c. ''a b\<newline>'' = c @ ''\<newline>'' \<and> CHR 0x0A \<notin> set c" by blast
  have r1: "fst (Read ''xxxxxx'' lr) = (''ab\<newline>xxx'', 3, None)"
    using tok c1 by (simp add: Read_def rs scn fl MapStringErr_closure_def vars_def[symmetric]
        copy_def copy_n_def)
  obtain e where e: "AWKMode_closure idcb (vars, captured lr) ''a b\<newline>'' = ((''a b\<newline>'', None), e)"
    using c2 by (cases "AWKMode_closure idcb (vars, captured lr) ''a b\<newline>''") auto
  have r2: "fst (Read ''xxxxxx'' lr') = (''a b\<newline>xx'', 4, None)"
    using tok e by (simp add: Read_def rs scn fl' av cap MapStringErr_closure_def vars_def[symmetric]
        copy_def copy_n_def split_beta)
  from r1 r2 show ?thesis unfolding lr_def lr'_def cb_def idcb_def src_def by simp
qed

text \<open>
  A record that ends in two separator bytes does not come back unchanged: the closure
  strips one separator, the callback returns a line that still ends in one, and
  nothing is appended.
\<close>

theorem AWK_identity_drops_doubled_separator:
  "fst (AWKMode_closure (\<lambda>env l fs v. ((l, None), env))
         (awkVars (NewReader \<lparr>chunks = [], final = EOF\<rparr> ()),
          captured (NewReader \<lparr>chunks = [], final = EOF\<rparr> ()))
         ''a\<newline>\<newline>'') = (''a\<newline>'', None)"
  by code_simp

text \<open>
  For a separator byte from 0x80 on, \<^verbatim>\<open>string(RS)\<close> is the two-byte UTF-8 encoding and not
  the byte the Tokenizer cuts at: the closure of \<^verbatim>\<open>AWKMode\<close> neither strips the separator
  nor appends it.
\<close>

lemma AWK_high_separator_not_stripped:
  "fst (AWKMode_closure (\<lambda>env l fs v. ((''<'' @ l @ ''>'', None), env))
         (awkVars (SetRS (CHR 0xFF) (NewReader \<lparr>chunks = [], final = EOF\<rparr> ())),
          captured (NewReader \<lparr>chunks = [], final = EOF\<rparr> ()))
         [CHR ''a'', CHR 0xFF]) = ([CHR ''<'', CHR ''a'', CHR 0xFF, CHR ''>''], None)"
  by code_simp

end

